theory Spec2Isabelle
  imports Complex_Main
begin

section \<open>Python strings\<close>

text \<open>
  A Python \<^verbatim>\<open>str\<close> is a sequence of Unicode code points and \<^verbatim>\<open>len\<close> counts code
  points, so a string is a list of code points and a literal is converted by \<open>str\<close>.
\<close>

type_synonym pystr = "nat list"

definition str :: "string \<Rightarrow> pystr" where
  "str s = map of_char s"

text \<open>The code points that \<^verbatim>\<open>str.strip()\<close> removes (those for which \<^verbatim>\<open>str.isspace\<close> holds).\<close>

definition isspace :: "nat \<Rightarrow> bool" where
  "isspace c \<longleftrightarrow>
     (9 \<le> c \<and> c \<le> 13) \<or> (28 \<le> c \<and> c \<le> 32) \<or> c = 133 \<or> c = 160 \<or> c = 5760 \<or>
     (8192 \<le> c \<and> c \<le> 8202) \<or> c = 8232 \<or> c = 8233 \<or> c = 8239 \<or> c = 8287 \<or> c = 12288"

definition strip :: "pystr \<Rightarrow> pystr" where
  "strip s = rev (dropWhile isspace (rev (dropWhile isspace s)))"

text \<open>
  Slice bounds as Python normalises them: a negative bound counts from the end, and the
  result is clamped to \<open>0 .. len\<close>.
\<close>

definition adjust_index :: "nat \<Rightarrow> int \<Rightarrow> nat" where
  "adjust_index n i = (if i < 0 then nat (max 0 (int n + i)) else min n (nat i))"

definition py_slice :: "'a list \<Rightarrow> int \<Rightarrow> int \<Rightarrow> 'a list" where
  "py_slice xs i j =
     (let lo = adjust_index (length xs) i; hi = adjust_index (length xs) j
      in take (hi - lo) (drop lo xs))"

text \<open>
  \<^verbatim>\<open>s.rfind(c, i, j)\<close> for a one-character \<open>c\<close>: the highest index in \<^verbatim>\<open>s[i:j]\<close> that
  holds \<open>c\<close>, or \<open>-1\<close>.
\<close>

definition rfind :: "pystr \<Rightarrow> nat \<Rightarrow> int \<Rightarrow> int \<Rightarrow> int" where
  "rfind s c i j =
     (let lo = adjust_index (length s) i; hi = adjust_index (length s) j;
          found = filter (\<lambda>k. s ! k = c) [lo..<hi]
      in if found = [] then - 1 else int (last found))"

text \<open>\<^verbatim>\<open>sep.join(parts)\<close>.\<close>

fun join :: "pystr \<Rightarrow> pystr list \<Rightarrow> pystr" where
  "join sep [] = []"
| "join sep [x] = x"
| "join sep (x # y # ys) = x @ sep @ join sep (y # ys)"

text \<open>\<^verbatim>\<open>str(n)\<close> for an integer: its decimal digits, with a minus sign when negative.\<close>

fun str_of_nat :: "nat \<Rightarrow> pystr" where
  "str_of_nat n = (if n < 10 then [48 + n] else str_of_nat (n div 10) @ [48 + n mod 10])"

declare str_of_nat.simps [simp del]

definition str_of_int :: "int \<Rightarrow> pystr" where
  "str_of_int i = (if i < 0 then 45 # str_of_nat (nat (- i)) else str_of_nat (nat i))"

section \<open>document\_processor.py: the chunker\<close>

record document_processor =
  chunk_size :: int
  chunk_overlap :: int

text \<open>
  The cut point of one window of \<^verbatim>\<open>_split_text_into_chunks\<close> (lines 128--145): the raw
  end \<open>start + chunk_size\<close>, moved back to just after the last sentence terminator or
  else to the last space when the window does not reach the end of the text.
\<close>

definition chunk_end :: "pystr \<Rightarrow> int \<Rightarrow> int \<Rightarrow> int" where
  "chunk_end text csize start =
     (let end = start + csize in
      if end < int (length text) then
        (let last_period = rfind text (of_char CHR ''.'') start end;
             last_exclamation = rfind text (of_char CHR ''!'') start end;
             last_question = rfind text (of_char CHR ''?'') start end;
             sentence_end = max (max last_period last_exclamation) last_question
         in if sentence_end > start then sentence_end + 1
            else (let last_space = rfind text (of_char CHR '' '') start end
                  in if last_space > start then last_space else end))
      else end)"

text \<open>
  The \<^verbatim>\<open>while start < len(text)\<close> loop (lines 127--154). The loop need not terminate,
  so it lives in the option monad: \<open>None\<close> is a run that never returns.
\<close>

partial_function (option) split_loop ::
  "pystr \<Rightarrow> int \<Rightarrow> int \<Rightarrow> int \<Rightarrow> pystr list \<Rightarrow> pystr list option" where
  "split_loop text csize overlap start chunks =
     (if start < int (length text) then
        (let end = chunk_end text csize start;
             chunk = strip (py_slice text start end);
             chunks' = (if chunk \<noteq> [] then chunks @ [chunk] else chunks);
             start' = end - overlap
         in if start' \<le> 0 then Some chunks'
            else split_loop text csize overlap start' chunks')
      else Some chunks)"

declare split_loop.simps [code]

definition split_text_into_chunks :: "document_processor \<Rightarrow> pystr \<Rightarrow> pystr list option" where
  "split_text_into_chunks self text =
     (if int (length text) \<le> chunk_size self then Some [text]
      else split_loop text (chunk_size self) (chunk_overlap self) 0 [])"

section \<open>rag\_pipeline.py: the query pipeline\<close>

text \<open>An exception is a value carrying its message; \<open>str_of_error\<close> is \<^verbatim>\<open>str(e)\<close>.\<close>

datatype py_error = PyException pystr

fun str_of_error :: "py_error \<Rightarrow> pystr" where
  "str_of_error (PyException msg) = msg"

text \<open>
  \<^verbatim>\<open>try: body except Exception as e: handler(e)\<close>, with a computation that may raise as
  a value of the sum type (\<open>Inl\<close> the exception).
\<close>

definition try_except :: "py_error + 'a \<Rightarrow> (py_error \<Rightarrow> py_error + 'a) \<Rightarrow> py_error + 'a" where
  "try_except body handler = (case body of Inl e \<Rightarrow> handler e | Inr v \<Rightarrow> Inr v)"

text \<open>
  Metadata values of this repository are strings (\<^verbatim>\<open>source\<close>, \<^verbatim>\<open>file_type\<close>) and
  integers (\<^verbatim>\<open>chunk_id\<close>); \<open>format_value\<close> is what an f-string prints for them.
\<close>

datatype meta_value = MStr pystr | MInt int

fun format_value :: "meta_value \<Rightarrow> pystr" where
  "format_value (MStr s) = s"
| "format_value (MInt i) = str_of_int i"

type_synonym metadata_dict = "pystr \<rightharpoonup> meta_value"

text \<open>A document of the vector store, and a retrieved hit (also the shape of a source).\<close>

record document =
  page_content :: pystr
  doc_metadata :: metadata_dict

record hit =
  content :: pystr
  metadata :: metadata_dict
  score :: real

record response =
  answer :: pystr
  sources :: "hit list"

text \<open>
  The two collaborators are opaque: the vector store is its method
  \<^verbatim>\<open>similarity_search_with_score(query, k)\<close> and the client its method
  \<^verbatim>\<open>generate_response(prompt)\<close>; either may raise.
\<close>

type_synonym faiss = "pystr \<Rightarrow> int \<Rightarrow> py_error + (document \<times> real) list"

type_synonym gemini = "pystr \<Rightarrow> py_error + pystr"

record rag_pipeline =
  vector_store :: faiss
  gemini_client :: gemini
  max_context_length :: int

text \<open>
  \<^verbatim>\<open>xs.sort(key=..., reverse=True)\<close>: CPython reverses the list, sorts it stably in
  ascending order and reverses it again, so equal keys keep their order.
\<close>

definition sort_reverse :: "('a \<Rightarrow> real) \<Rightarrow> 'a list \<Rightarrow> 'a list" where
  "sort_reverse key xs = rev (sort_key key (rev xs))"

definition retrieve_documents :: "rag_pipeline \<Rightarrow> pystr \<Rightarrow> int \<Rightarrow> py_error + hit list" where
  "retrieve_documents self query k =
     try_except
       (case vector_store self query k of
          Inl e \<Rightarrow> Inl e
        | Inr results \<Rightarrow>
            (let formatted_results =
                   map (\<lambda>(doc, s).
                          \<lparr>content = page_content doc, metadata = doc_metadata doc, score = s\<rparr>)
                       results
             in Inr (sort_reverse score formatted_results)))
       (\<lambda>e. Inr [])"

text \<open>One block of the context (line 84), for the hit at 0-based position \<open>i\<close>.\<close>

definition doc_text :: "nat \<Rightarrow> hit \<Rightarrow> pystr" where
  "doc_text i doc =
     str ''[Source '' @ str_of_nat (i + 1) @ str '' - '' @
     (case metadata doc (str ''source'') of
        None \<Rightarrow> str ''Unknown''
      | Some v \<Rightarrow> format_value v) @
     str '']\<newline>'' @ content doc @ str ''\<newline>''"

text \<open>
  The \<^verbatim>\<open>for i, doc in enumerate(relevant_docs)\<close> loop of \<^verbatim>\<open>_prepare_context\<close> with its
  \<^verbatim>\<open>break\<close>: the state is the index, the parts accepted so far and their total length.
\<close>

fun context_loop :: "int \<Rightarrow> nat \<Rightarrow> hit list \<Rightarrow> pystr list \<Rightarrow> int \<Rightarrow> pystr list" where
  "context_loop max_length i [] context_parts current_length = context_parts"
| "context_loop max_length i (doc # docs) context_parts current_length =
     (let t = doc_text i doc in
      if current_length + int (length t) > max_length then context_parts
      else context_loop max_length (i + 1) docs (context_parts @ [t])
             (current_length + int (length t)))"

definition prepare_context :: "rag_pipeline \<Rightarrow> hit list \<Rightarrow> pystr" where
  "prepare_context self relevant_docs =
     join (str ''\<newline>'') (context_loop (max_context_length self) 0 relevant_docs [] 0)"

definition prompt :: "pystr \<Rightarrow> pystr \<Rightarrow> pystr" where
  "prompt question context =
     str ''Based on the following context from uploaded documents, please answer the user's question. \<newline>'' @
     str ''If the context doesn't contain enough information to answer the question, please say so clearly.\<newline>'' @
     str ''\<newline>Context:\<newline>'' @ context @
     str ''\<newline>\<newline>Question: '' @ question @
     str ''\<newline>\<newline>Instructions:\<newline>'' @
     str ''- Provide a clear, accurate, and helpful answer based on the context\<newline>'' @
     str ''- If information is incomplete or unclear, mention this\<newline>'' @
     str ''- Reference specific sources when possible\<newline>'' @
     str ''- If the context doesn't contain relevant information, state this clearly\<newline>'' @
     str ''- Be conversational but informative\<newline>'' @
     str ''\<newline>Answer:''"

definition generate_answer :: "rag_pipeline \<Rightarrow> pystr \<Rightarrow> pystr \<Rightarrow> py_error + pystr" where
  "generate_answer self question context =
     try_except
       (case gemini_client self (prompt question context) of
          Inl e \<Rightarrow> Inl e
        | Inr ans \<Rightarrow>
            if ans = [] \<or> strip ans = []
            then Inr (str ''I was unable to generate an answer to your question. Please try rephrasing your question or check if your documents contain relevant information.'')
            else Inr ans)
       (\<lambda>e. Inr (str ''I encountered an error while generating an answer: '' @ str_of_error e))"

definition source_info :: "hit \<Rightarrow> hit" where
  "source_info doc =
     \<lparr>content = (if length (content doc) > 500 then take 500 (content doc) @ str ''...''
                 else content doc),
      metadata = metadata doc,
      score = score doc\<rparr>"

definition format_sources :: "hit list \<Rightarrow> hit list" where
  "format_sources relevant_docs = map source_info relevant_docs"

definition query :: "rag_pipeline \<Rightarrow> pystr \<Rightarrow> int \<Rightarrow> py_error + response" where
  "query self question num_sources =
     try_except
       (case retrieve_documents self question num_sources of
          Inl e \<Rightarrow> Inl e
        | Inr relevant_docs \<Rightarrow>
            if relevant_docs = []
            then Inr \<lparr>answer = str ''I couldn't find any relevant information in the uploaded documents to answer your question.'',
                      sources = []\<rparr>
            else
              (let context = prepare_context self relevant_docs in
               case generate_answer self question context of
                 Inl e \<Rightarrow> Inl e
               | Inr ans \<Rightarrow>
                   Inr \<lparr>answer = ans, sources = format_sources relevant_docs\<rparr>))
       (\<lambda>e. Inr \<lparr>answer = str ''An error occurred while processing your question: '' @ str_of_error e,
                  sources = []\<rparr>)"

definition update_vector_store :: "rag_pipeline \<Rightarrow> faiss \<Rightarrow> rag_pipeline" where
  "update_vector_store self new_vector_store = self\<lparr>vector_store := new_vector_store\<rparr>"

section \<open>Example inputs and notions used in the statements\<close>

text \<open>
  Every chunk the loop appends is the stripped, non-empty slice of a window \<open>[a, b)\<close>
  with \<open>0 \<le> a < b \<le> a + csize\<close>.
\<close>

definition window_chunk :: "pystr \<Rightarrow> int \<Rightarrow> pystr \<Rightarrow> bool" where
  "window_chunk t csize c \<longleftrightarrow>
     (\<exists>a b. 0 \<le> a \<and> a < b \<and> b \<le> a + csize \<and> c = strip (py_slice t a b) \<and> c \<noteq> [])"

text \<open>
  The last sentence terminator of \<^verbatim>\<open>text[i:j]\<close>, as line 137 computes it, and the three
  characters it looks for.
\<close>

definition last_terminator :: "pystr \<Rightarrow> int \<Rightarrow> int \<Rightarrow> int" where
  "last_terminator t i j =
     max (max (rfind t (of_char CHR ''.'') i j) (rfind t (of_char CHR ''!'') i j))
         (rfind t (of_char CHR ''?'') i j)"

definition terminator :: "nat \<Rightarrow> bool" where
  "terminator c \<longleftrightarrow> c = of_char CHR ''.'' \<or> c = of_char CHR ''!'' \<or> c = of_char CHR ''?''"

text \<open>
  One run of the loop, written as the list of its windows \<open>(start, end)\<close>: each window
  starts where the loop stands, ends at the cut point \<open>chunk_end\<close> picks there, and is
  followed by the window that starts at \<open>end - overlap\<close>, unless that is \<open>\<le> 0\<close> (the
  \<^verbatim>\<open>break\<close>); the list ends when the loop condition \<^verbatim>\<open>start < len(text)\<close> fails.
\<close>

fun window_run :: "pystr \<Rightarrow> int \<Rightarrow> int \<Rightarrow> int \<Rightarrow> (int \<times> int) list \<Rightarrow> bool" where
  "window_run t csize overlap start [] \<longleftrightarrow> \<not> start < int (length t)"
| "window_run t csize overlap start ((a, b) # ws) \<longleftrightarrow>
     start < int (length t) \<and> a = start \<and> b = chunk_end t csize start \<and>
     (if b - overlap \<le> 0 then ws = [] else window_run t csize overlap (b - overlap) ws)"

text \<open>
  Two texts for concrete runs: the sentence of the spec's boundary-preference test, and 25
  letters without any sentence terminator or space.
\<close>

definition sample_text :: pystr where
  "sample_text = str ''Hello world. This is a test sentence that continues on.''"

definition letters_text :: pystr where
  "letters_text = str ''abcdefghijklmnopqrstuvwxy''"

text \<open>
  The reconstruction that the spec's coverage property speaks of, written from the spec's
  words and not from the code: the first chunk, followed by every later chunk without
  its first \<open>overlap\<close> characters.
\<close>

definition reconstruct :: "int \<Rightarrow> pystr list \<Rightarrow> pystr" where
  "reconstruct overlap chunks =
     (case chunks of [] \<Rightarrow> [] | c # cs \<Rightarrow> c @ concat (map (drop (nat overlap)) cs))"

text \<open>
  A store that returns the same one-letter document twice, with a chosen budget and
  generator; a generator that answers, one that raises, and a store that raises; a hit
  with 600 characters of content.
\<close>

definition tiny_hit :: hit where
  "tiny_hit = \<lparr>content = str ''a'', metadata = [str ''source'' \<mapsto> MStr (str ''s'')], score = 0.5\<rparr>"

definition tiny_document :: document where
  "tiny_document = \<lparr>page_content = str ''a'', doc_metadata = [str ''source'' \<mapsto> MStr (str ''s'')]\<rparr>"

definition tiny_pipeline :: "int \<Rightarrow> gemini \<Rightarrow> rag_pipeline" where
  "tiny_pipeline n g =
     \<lparr>vector_store = (\<lambda>q k. Inr [(tiny_document, 0.5), (tiny_document, 0.5)]),
      gemini_client = g, max_context_length = n\<rparr>"

definition ok_gemini :: gemini where
  "ok_gemini = (\<lambda>p. Inr (str ''ok''))"

definition failing_gemini :: gemini where
  "failing_gemini = (\<lambda>p. Inl (PyException (str ''quota exceeded'')))"

definition failing_store_pipeline :: rag_pipeline where
  "failing_store_pipeline =
     \<lparr>vector_store = (\<lambda>q k. Inl (PyException (str ''index unavailable''))),
      gemini_client = ok_gemini, max_context_length = 4000\<rparr>"

definition long_hit :: hit where
  "long_hit = \<lparr>content = replicate 600 97, metadata = Map.empty, score = 0.25\<rparr>"

section \<open>Facts about the string operations\<close>

lemma adjust_index_le: "adjust_index n i \<le> n"
  by (auto simp: adjust_index_def)

lemma adjust_index_nonneg: "0 \<le> i \<Longrightarrow> int (adjust_index n i) \<le> i"
  by (simp add: adjust_index_def)

lemma adjust_index_mono: "0 \<le> i \<Longrightarrow> i \<le> j \<Longrightarrow> int (adjust_index n j) - int (adjust_index n i) \<le> j - i"
  by (auto simp: adjust_index_def min_def)

lemma length_py_slice:
  assumes "0 \<le> i" and "i \<le> j"
  shows "int (length (py_slice xs i j)) \<le> j - i"
  using assms adjust_index_mono[of i j "length xs"]
  by (simp add: py_slice_def Let_def)

lemma py_slice_infix: "\<exists>pre post. xs = pre @ py_slice xs i j @ post"
proof -
  let ?lo = "adjust_index (length xs) i" and ?hi = "adjust_index (length xs) j"
  have "drop ?lo xs = take (?hi - ?lo) (drop ?lo xs) @ drop (?hi - ?lo) (drop ?lo xs)"
    by (rule append_take_drop_id[symmetric])
  moreover have "xs = take ?lo xs @ drop ?lo xs"
    by (rule append_take_drop_id[symmetric])
  ultimately have "xs = take ?lo xs @ take (?hi - ?lo) (drop ?lo xs) @ drop (?hi - ?lo) (drop ?lo xs)"
    by metis
  then show ?thesis unfolding py_slice_def Let_def by blast
qed

lemma strip_decomp: "s = takeWhile isspace s @ strip s @ rev (takeWhile isspace (rev (dropWhile isspace s)))"
proof -
  let ?d = "dropWhile isspace s"
  have "rev (rev ?d) = rev (takeWhile isspace (rev ?d) @ dropWhile isspace (rev ?d))"
    by (simp only: takeWhile_dropWhile_id)
  then have "?d = strip s @ rev (takeWhile isspace (rev ?d))"
    by (simp only: strip_def rev_append rev_rev_ident)
  moreover have "s = takeWhile isspace s @ ?d" by simp
  ultimately show ?thesis by simp
qed

lemma length_strip_le: "length (strip s) \<le> length s"
proof -
  have "length s = length (takeWhile isspace s @ strip s @ rev (takeWhile isspace (rev (dropWhile isspace s))))"
    using strip_decomp[of s] by simp
  then show ?thesis by simp
qed

lemma strip_last: "strip s \<noteq> [] \<Longrightarrow> \<not> isspace (last (strip s))"
  unfolding strip_def by (simp only: last_rev rev_is_Nil_conv hd_dropWhile not_False_eq_True)

lemma strip_hd: assumes "strip s \<noteq> []" shows "\<not> isspace (hd (strip s))"
proof -
  let ?d = "dropWhile isspace s"
  have d: "?d = strip s @ rev (takeWhile isspace (rev ?d))"
    using strip_decomp[of s] by (metis append_eq_append_conv takeWhile_dropWhile_id)
  with assms have "?d \<noteq> []" by (metis Nil_is_append_conv)
  then have "\<not> isspace (hd ?d)" by (rule hd_dropWhile)
  moreover from d assms have "hd ?d = hd (strip s)" by (metis hd_append2)
  ultimately show ?thesis by simp
qed

lemma rfind_bounds: "rfind s c i j = - 1 \<or> (int (adjust_index (length s) i) \<le> rfind s c i j \<and> rfind s c i j < int (adjust_index (length s) j))"
proof -
  let ?found = "filter (\<lambda>k. s ! k = c) [adjust_index (length s) i..<adjust_index (length s) j]"
  show ?thesis
  proof (cases "?found = []")
    case True
    then show ?thesis by (simp add: rfind_def Let_def)
  next
    case False
    then have "last ?found \<in> set ?found" by (rule last_in_set)
    then have "adjust_index (length s) i \<le> last ?found \<and> last ?found < adjust_index (length s) j"
      by simp
    with False show ?thesis by (simp add: rfind_def Let_def)
  qed
qed

lemma rfind_less: "0 \<le> j \<Longrightarrow> rfind s c i j < j"
  using rfind_bounds[of s c i j] adjust_index_nonneg[of j "length s"] by linarith

lemma chunk_end_le: "0 \<le> start \<Longrightarrow> 0 < csize \<Longrightarrow> chunk_end t csize start \<le> start + csize"
  unfolding chunk_end_def Let_def
  using rfind_less[of "start + csize" t "of_char CHR ''.''" start]
        rfind_less[of "start + csize" t "of_char CHR ''!''" start]
        rfind_less[of "start + csize" t "of_char CHR ''?''" start]
        rfind_less[of "start + csize" t "of_char CHR '' ''" start]
  by (simp split: if_splits) linarith

lemma chunk_end_greater: "0 < csize \<Longrightarrow> start < chunk_end t csize start"
  unfolding chunk_end_def Let_def by (simp split: if_splits)


section \<open>The chunking loop, one iteration at a time\<close>

lemma split_loop_exit:
  "\<not> start < int (length t) \<Longrightarrow> split_loop t csize overlap start chunks = Some chunks"
  by (subst split_loop.simps) simp

lemma split_loop_break:
  "start < int (length t) \<Longrightarrow> chunk_end t csize start = e \<Longrightarrow> e - overlap \<le> 0 \<Longrightarrow>
   strip (py_slice t start e) = c \<Longrightarrow>
   split_loop t csize overlap start chunks = Some (if c \<noteq> [] then chunks @ [c] else chunks)"
  by (subst split_loop.simps) (simp add: Let_def)

lemma split_loop_next:
  "start < int (length t) \<Longrightarrow> chunk_end t csize start = e \<Longrightarrow> 0 < e - overlap \<Longrightarrow>
   strip (py_slice t start e) = c \<Longrightarrow>
   split_loop t csize overlap start chunks =
   split_loop t csize overlap (e - overlap) (if c \<noteq> [] then chunks @ [c] else chunks)"
  by (subst split_loop.simps) (simp add: Let_def)

text \<open>A window whose cut point minus the overlap is its own start is entered again and again.\<close>

lemma split_loop_stuck:
  assumes "split_loop t csize overlap start chunks = Some y"
  shows "\<not> (start < int (length t) \<and> 0 < start \<and> chunk_end t csize start - overlap = start)"
proof -
  let ?P = "\<lambda>t csize overlap start (chunks :: pystr list) (y :: pystr list).
     \<not> (start < int (length t) \<and> 0 < start \<and> chunk_end t csize start - overlap = start)"
  show ?thesis
  proof (rule split_loop.raw_induct[where P = ?P, OF _ assms])
    fix f t csize overlap start chunks y
    assume IH: "\<And>t csize overlap start chunks y.
        f t csize overlap start chunks = Some y \<Longrightarrow> ?P t csize overlap start chunks y"
      and step: "(if start < int (length t) then
        (let end = chunk_end t csize start;
             chunk = strip (py_slice t start end);
             chunks' = (if chunk \<noteq> [] then chunks @ [chunk] else chunks);
             start' = end - overlap
         in if start' \<le> 0 then Some chunks'
            else f t csize overlap start' chunks')
      else Some chunks) = Some y"
    show "?P t csize overlap start chunks y"
    proof
      assume st: "start < int (length t) \<and> 0 < start \<and> chunk_end t csize start - overlap = start"
      with step have "f t csize overlap start
         (if strip (py_slice t start (chunk_end t csize start)) \<noteq> []
          then chunks @ [strip (py_slice t start (chunk_end t csize start))] else chunks) = Some y"
        by (simp add: Let_def)
      from IH[OF this] st show False by blast
    qed
  qed
qed

lemma split_loop_windows:
  assumes "split_loop t csize overlap start chunks = Some y"
  shows "0 \<le> start \<longrightarrow> 0 < csize \<longrightarrow> (\<exists>ws. y = chunks @ ws \<and> (\<forall>c\<in>set ws. window_chunk t csize c))"
proof -
  let ?P = "\<lambda>t csize (overlap :: int) start (chunks :: pystr list) (y :: pystr list).
     0 \<le> start \<longrightarrow> 0 < csize \<longrightarrow> (\<exists>ws. y = chunks @ ws \<and> (\<forall>c\<in>set ws. window_chunk t csize c))"
  show ?thesis
  proof (rule split_loop.raw_induct[where P = ?P, OF _ assms])
    fix f t csize overlap start chunks y
    assume IH: "\<And>t csize overlap start chunks y.
        f t csize overlap start chunks = Some y \<Longrightarrow> ?P t csize overlap start chunks y"
      and step: "(if start < int (length t) then
        (let end = chunk_end t csize start;
             chunk = strip (py_slice t start end);
             chunks' = (if chunk \<noteq> [] then chunks @ [chunk] else chunks);
             start' = end - overlap
         in if start' \<le> 0 then Some chunks'
            else f t csize overlap start' chunks')
      else Some chunks) = Some y"
    show "?P t csize overlap start chunks y"
    proof (intro impI)
      assume s0: "0 \<le> start" and c0: "0 < csize"
      let ?e = "chunk_end t csize start"
      let ?c = "strip (py_slice t start ?e)"
      let ?chunks' = "if ?c \<noteq> [] then chunks @ [?c] else chunks"
      have win: "?c \<noteq> [] \<Longrightarrow> window_chunk t csize ?c"
        unfolding window_chunk_def
        using s0 chunk_end_greater[OF c0, of start t] chunk_end_le[OF s0 c0, of t] by blast
      have ext: "\<exists>ws. ?chunks' = chunks @ ws \<and> (\<forall>c\<in>set ws. window_chunk t csize c)"
      proof (cases "?c = []")
        case True
        then show ?thesis by simp
      next
        case False
        with win have "?chunks' = chunks @ [?c] \<and> (\<forall>c\<in>set [?c]. window_chunk t csize c)"
          by simp
        then show ?thesis by blast
      qed
      show "\<exists>ws. y = chunks @ ws \<and> (\<forall>c\<in>set ws. window_chunk t csize c)"
      proof (cases "start < int (length t)")
        case False
        with step have "y = chunks @ []" by simp
        then show ?thesis by (metis empty_iff list.set(1))
      next
        case True
        show ?thesis
        proof (cases "?e - overlap \<le> 0")
          case True
          with \<open>start < int (length t)\<close> step have "y = ?chunks'" by (simp add: Let_def)
          with ext show ?thesis by simp
        next
          case False
          with \<open>start < int (length t)\<close> step
          have "f t csize overlap (?e - overlap) ?chunks' = Some y" by (simp add: Let_def)
          from IH[OF this] False c0
          obtain ws where ws: "y = ?chunks' @ ws" "\<forall>c\<in>set ws. window_chunk t csize c"
            by auto
          from ext obtain ws0 where ws0: "?chunks' = chunks @ ws0" "\<forall>c\<in>set ws0. window_chunk t csize c"
            by blast
          from ws ws0 have "y = chunks @ (ws0 @ ws) \<and> (\<forall>c\<in>set (ws0 @ ws). window_chunk t csize c)"
            by auto
          then show ?thesis by blast
        qed
      qed
    qed
  qed
qed

lemma window_chunk_length: "window_chunk t csize c \<Longrightarrow> int (length c) \<le> csize"
proof -
  assume "window_chunk t csize c"
  then obtain a b where ab: "0 \<le> a" "a < b" "b \<le> a + csize" "c = strip (py_slice t a b)"
    unfolding window_chunk_def by blast
  have "int (length c) \<le> int (length (py_slice t a b))"
    using length_strip_le[of "py_slice t a b"] ab(4) by simp
  also have "\<dots> \<le> b - a" using length_py_slice[of a b t] ab by simp
  finally show ?thesis using ab(3) by simp
qed

lemma window_chunk_trimmed:
  assumes "window_chunk t csize c"
  shows "c \<noteq> [] \<and> \<not> isspace (hd c) \<and> \<not> isspace (last c) \<and> (\<exists>pre post. t = pre @ c @ post)"
proof -
  from assms obtain a b where c: "c = strip (py_slice t a b)" and ne: "c \<noteq> []"
    unfolding window_chunk_def by blast
  obtain p1 q1 where 1: "t = p1 @ py_slice t a b @ q1" using py_slice_infix by blast
  obtain p2 q2 where 2: "py_slice t a b = p2 @ c @ q2" using strip_decomp[of "py_slice t a b"] c by blast
  have "t = (p1 @ p2) @ c @ (q2 @ q1)" by (subst 1, subst 2) simp
  then have "\<exists>pre post. t = pre @ c @ post" by blast
  with ne strip_hd[of "py_slice t a b"] strip_last[of "py_slice t a b"] c show ?thesis by simp
qed

section \<open>The last occurrence of a character in a window\<close>

lemma last_filter_upt_ge:
  "k \<in> set (filter P [lo..<hi]) \<Longrightarrow> k \<le> last (filter P [lo..<hi])"
proof (induction hi)
  case 0
  then show ?case by simp
next
  case (Suc hi)
  show ?case
  proof (cases "lo \<le> hi")
    case False
    with Suc.prems show ?thesis by simp
  next
    case True
    from True have k: "k \<in> set (filter P [lo..<hi]) \<or> (k = hi \<and> P hi)"
      using Suc.prems by (auto split: if_splits)
    show ?thesis
    proof (cases "P hi")
      case True
      from \<open>lo \<le> hi\<close> True have "last (filter P [lo..<Suc hi]) = hi" by simp
      moreover from k have "k \<le> hi" by auto
      ultimately show ?thesis by simp
    next
      case False
      with k have "k \<in> set (filter P [lo..<hi])" by blast
      then have "k \<le> last (filter P [lo..<hi])" by (rule Suc.IH)
      moreover from \<open>lo \<le> hi\<close> False have "filter P [lo..<Suc hi] = filter P [lo..<hi]" by simp
      ultimately show ?thesis by (simp only:)
    qed
  qed
qed

lemma adjust_index_window: "0 \<le> i \<Longrightarrow> i \<le> int n \<Longrightarrow> adjust_index n i = nat i"
  by (simp add: adjust_index_def)

lemma rfind_ge: "- 1 \<le> rfind t c i j"
  using rfind_bounds[of t c i j] by linarith

lemma rfind_hit:
  assumes "0 \<le> i" and "i \<le> j" and "j \<le> int (length t)" and "rfind t c i j \<noteq> - 1"
  shows "i \<le> rfind t c i j \<and> rfind t c i j < j \<and> t ! nat (rfind t c i j) = c"
proof -
  let ?found = "filter (\<lambda>k. t ! k = c) [nat i..<nat j]"
  from assms have r: "rfind t c i j = (if ?found = [] then - 1 else int (last ?found))"
    by (simp add: rfind_def Let_def adjust_index_window)
  with assms(4) have ne: "?found \<noteq> []" by auto
  then have "last ?found \<in> set ?found" by (rule last_in_set)
  then have l: "nat i \<le> last ?found" "last ?found < nat j" "t ! last ?found = c" by simp_all
  from l(1) assms(1) have "i \<le> int (last ?found)" by linarith
  moreover from l(2) have "int (last ?found) < j" by linarith
  moreover from r ne have "rfind t c i j = int (last ?found)" by simp
  ultimately show ?thesis using l(3) by simp
qed

lemma rfind_max:
  assumes "0 \<le> i" and "i \<le> j" and "j \<le> int (length t)"
    and "i \<le> k" and "k < j" and "t ! nat k = c"
  shows "k \<le> rfind t c i j"
proof -
  let ?found = "filter (\<lambda>k. t ! k = c) [nat i..<nat j]"
  from assms have r: "rfind t c i j = (if ?found = [] then - 1 else int (last ?found))"
    by (simp add: rfind_def Let_def adjust_index_window)
  from assms have m: "nat k \<in> set ?found" by auto
  then have ne: "?found \<noteq> []" by (metis empty_iff empty_set)
  from m have "nat k \<le> last ?found" by (rule last_filter_upt_ge)
  then have "k \<le> int (last ?found)" by linarith
  moreover from r ne have "rfind t c i j = int (last ?found)" by simp
  ultimately show ?thesis by simp
qed

lemma last_terminator_ge: "- 1 \<le> last_terminator t i j"
  using rfind_ge[of t "of_char CHR ''.''" i j] by (simp add: last_terminator_def)

lemma last_terminator_hit:
  assumes "0 \<le> i" and "i \<le> j" and "j \<le> int (length t)" and "last_terminator t i j \<noteq> - 1"
  shows "i \<le> last_terminator t i j \<and> last_terminator t i j < j \<and>
         terminator (t ! nat (last_terminator t i j))"
proof -
  let ?a = "rfind t (of_char CHR ''.'') i j" and ?b = "rfind t (of_char CHR ''!'') i j"
    and ?c = "rfind t (of_char CHR ''?'') i j"
  have "last_terminator t i j = ?a \<or> last_terminator t i j = ?b \<or> last_terminator t i j = ?c"
    by (auto simp: last_terminator_def max_def)
  then show ?thesis
    using assms(4) rfind_hit[OF assms(1-3), of "of_char CHR ''.''"]
      rfind_hit[OF assms(1-3), of "of_char CHR ''!''"]
      rfind_hit[OF assms(1-3), of "of_char CHR ''?''"]
    unfolding terminator_def by metis
qed

lemma last_terminator_max:
  assumes "0 \<le> i" and "i \<le> j" and "j \<le> int (length t)"
    and "i \<le> k" and "k < j" and "terminator (t ! nat k)"
  shows "k \<le> last_terminator t i j"
proof -
  from assms(6) consider "t ! nat k = of_char CHR ''.''" | "t ! nat k = of_char CHR ''!''"
    | "t ! nat k = of_char CHR ''?''"
    unfolding terminator_def by blast
  then show ?thesis
  proof cases
    case 1
    from rfind_max[OF assms(1-5) 1] show ?thesis by (simp add: last_terminator_def)
  next
    case 2
    from rfind_max[OF assms(1-5) 2] show ?thesis by (simp add: last_terminator_def)
  next
    case 3
    from rfind_max[OF assms(1-5) 3] show ?thesis by (simp add: last_terminator_def)
  qed
qed

lemma chunk_end_alt:
  "chunk_end t csize s =
     (if s + csize < int (length t) then
        (if last_terminator t s (s + csize) > s then last_terminator t s (s + csize) + 1
         else if rfind t (of_char CHR '' '') s (s + csize) > s
              then rfind t (of_char CHR '' '') s (s + csize)
              else s + csize)
      else s + csize)"
  by (simp add: chunk_end_def Let_def last_terminator_def)


text \<open>
  A window that does not advance is followed by one that does not advance either: the cut
  point of the earlier start is at most the cut point of the later one.
\<close>

lemma chunk_end_regress:
  assumes s0: "0 \<le> s" and ov0: "0 \<le> ov" and ovc: "ov < cs"
    and s': "s' = chunk_end t cs s - ov" and le: "s' \<le> s" and s'0: "0 \<le> s'"
  shows "chunk_end t cs s' \<le> chunk_end t cs s"
proof -
  define p where "p = last_terminator t s (s + cs)"
  define q where "q = rfind t (of_char CHR '' '') s (s + cs)"
  define p' where "p' = last_terminator t s' (s' + cs)"
  define q' where "q' = rfind t (of_char CHR '' '') s' (s' + cs)"
  have lt: "s + cs < int (length t)"
  proof (rule ccontr)
    assume "\<not> s + cs < int (length t)"
    then have "chunk_end t cs s = s + cs" by (simp add: chunk_end_alt)
    with s' le ovc show False by simp
  qed
  with le have lt': "s' + cs < int (length t)" by simp
  have ce: "chunk_end t cs s = (if p > s then p + 1 else if q > s then q else s + cs)"
    using lt by (simp add: chunk_end_alt p_def q_def)
  have ce': "chunk_end t cs s' = (if p' > s' then p' + 1 else if q' > s' then q' else s' + cs)"
    using lt' by (simp add: chunk_end_alt p'_def q'_def)
  have W: "0 \<le> s" "s \<le> s + cs" "s + cs \<le> int (length t)"
    using s0 ov0 ovc lt by simp_all
  have W': "0 \<le> s'" "s' \<le> s' + cs" "s' + cs \<le> int (length t)"
    using s'0 ov0 ovc lt' by simp_all
  have p_hit: "s \<le> p \<and> p < s + cs \<and> terminator (t ! nat p)" if "p \<noteq> - 1"
    using last_terminator_hit[OF W] that unfolding p_def by blast
  have p'_hit: "s' \<le> p' \<and> p' < s' + cs \<and> terminator (t ! nat p')" if "p' \<noteq> - 1"
    using last_terminator_hit[OF W'] that unfolding p'_def by blast
  have q_hit: "s \<le> q \<and> q < s + cs \<and> t ! nat q = of_char CHR '' ''" if "q \<noteq> - 1"
    using rfind_hit[OF W] that unfolding q_def by blast
  have q'_hit: "s' \<le> q' \<and> q' < s' + cs \<and> t ! nat q' = of_char CHR '' ''" if "q' \<noteq> - 1"
    using rfind_hit[OF W'] that unfolding q'_def by blast
  have p_max: "k \<le> p" if "s \<le> k" "k < s + cs" "terminator (t ! nat k)" for k
    using last_terminator_max[OF W that] unfolding p_def .
  have p'_max: "k \<le> p'" if "s' \<le> k" "k < s' + cs" "terminator (t ! nat k)" for k
    using last_terminator_max[OF W' that] unfolding p'_def .
  have q_max: "k \<le> q" if "s \<le> k" "k < s + cs" "t ! nat k = of_char CHR '' ''" for k
    using rfind_max[OF W that] unfolding q_def .
  have q'_max: "k \<le> q'" if "s' \<le> k" "k < s' + cs" "t ! nat k = of_char CHR '' ''" for k
    using rfind_max[OF W' that] unfolding q'_def .
  consider (sentence) "p > s" | (space) "p \<le> s" "q > s" | (hard) "p \<le> s" "q \<le> s"
    by linarith
  then show ?thesis
  proof cases
    case sentence
    with ce have e: "chunk_end t cs s = p + 1" by simp
    from sentence s0 have "p \<noteq> - 1" by simp
    from p_hit[OF this] have hp: "s \<le> p" "p < s + cs" "terminator (t ! nat p)" by simp_all
    from s' e have s'p: "s' = p + 1 - ov" by simp
    have "p \<le> p'"
    proof (rule p'_max)
      show "s' \<le> p" using le sentence by simp
      show "p < s' + cs" using s'p ovc by simp
      show "terminator (t ! nat p)" by (rule hp(3))
    qed
    with sentence le have gt: "p' > s'" by simp
    with s'0 have "p' \<noteq> - 1" by simp
    from p'_hit[OF this] have hp': "s' \<le> p'" "p' < s' + cs" "terminator (t ! nat p')"
      by simp_all
    have "p' \<le> p"
    proof (rule p_max)
      show "s \<le> p'" using \<open>p \<le> p'\<close> hp(1) by simp
      show "p' < s + cs" using hp'(2) le by simp
      show "terminator (t ! nat p')" by (rule hp'(3))
    qed
    with gt ce' e show ?thesis by simp
  next
    case space
    with ce have e: "chunk_end t cs s = q" by simp
    from space s0 have "q \<noteq> - 1" by simp
    from q_hit[OF this] have hq: "s \<le> q" "q < s + cs" "t ! nat q = of_char CHR '' ''"
      by simp_all
    from s' e have s'q: "s' = q - ov" by simp
    show ?thesis
    proof (cases "p' > s'")
      case True
      with s'0 have "p' \<noteq> - 1" by simp
      from p'_hit[OF this] have hp': "s' \<le> p'" "p' < s' + cs" "terminator (t ! nat p')"
        by simp_all
      have "p' \<le> s"
      proof (rule ccontr)
        assume "\<not> p' \<le> s"
        then have "s \<le> p'" by simp
        moreover have "p' < s + cs" using hp'(2) le by simp
        ultimately have "p' \<le> p" using hp'(3) by (rule p_max)
        with space(1) \<open>\<not> p' \<le> s\<close> show False by simp
      qed
      with True ce' e space(2) show ?thesis by simp
    next
      case False
      note np' = this
      show ?thesis
      proof (cases "q' > s'")
        case True
        with s'0 have "q' \<noteq> - 1" by simp
        from q'_hit[OF this] have hq': "s' \<le> q'" "q' < s' + cs" "t ! nat q' = of_char CHR '' ''"
          by simp_all
        have "q' \<le> q"
        proof (cases "s \<le> q'")
          case True
          moreover have "q' < s + cs" using hq'(2) le by simp
          ultimately show ?thesis using hq'(3) by (rule q_max)
        next
          case False
          with space(2) show ?thesis by simp
        qed
        with True np' ce' e show ?thesis by simp
      next
        case False
        have "q \<le> q'"
        proof (rule q'_max)
          show "s' \<le> q" using s'q ov0 by simp
          show "q < s' + cs" using s'q ovc by simp
          show "t ! nat q = of_char CHR '' ''" by (rule hq(3))
        qed
        with False s'q have "ov \<le> 0" by simp
        with ov0 s'q have "s' = q" by simp
        with le space(2) show ?thesis by simp
      qed
    qed
  next
    case hard
    with ce have "chunk_end t cs s = s + cs" by simp
    with s' le ovc show ?thesis by simp
  qed
qed

section \<open>The loop's run as a sequence of windows\<close>

lemma split_loop_run:
  assumes "split_loop t csize overlap start chunks = Some y"
  shows "\<exists>ws. window_run t csize overlap start ws \<and>
           y = chunks @ filter (\<lambda>c. c \<noteq> []) (map (\<lambda>(a, b). strip (py_slice t a b)) ws)"
proof -
  let ?P = "\<lambda>t csize overlap start (chunks :: pystr list) (y :: pystr list).
     \<exists>ws. window_run t csize overlap start ws \<and>
          y = chunks @ filter (\<lambda>c. c \<noteq> []) (map (\<lambda>(a, b). strip (py_slice t a b)) ws)"
  show ?thesis
  proof (rule split_loop.raw_induct[where P = ?P, OF _ assms])
    fix f t csize overlap start chunks y
    assume IH: "\<And>t csize overlap start chunks y.
        f t csize overlap start chunks = Some y \<Longrightarrow> ?P t csize overlap start chunks y"
      and step: "(if start < int (length t) then
        (let end = chunk_end t csize start;
             chunk = strip (py_slice t start end);
             chunks' = (if chunk \<noteq> [] then chunks @ [chunk] else chunks);
             start' = end - overlap
         in if start' \<le> 0 then Some chunks'
            else f t csize overlap start' chunks')
      else Some chunks) = Some y"
    let ?e = "chunk_end t csize start"
    let ?c = "strip (py_slice t start ?e)"
    let ?chunks' = "if ?c \<noteq> [] then chunks @ [?c] else chunks"
    let ?F = "\<lambda>ws. filter (\<lambda>c. c \<noteq> []) (map (\<lambda>(a, b). strip (py_slice t a b)) ws)"
    have hd: "?chunks' @ ?F ws = chunks @ ?F ((start, ?e) # ws)" for ws
      by simp
    show "?P t csize overlap start chunks y"
    proof (cases "start < int (length t)")
      case False
      with step have "window_run t csize overlap start [] \<and> y = chunks @ ?F []" by simp
      then show ?thesis by blast
    next
      case True
      show ?thesis
      proof (cases "?e - overlap \<le> 0")
        case True
        with \<open>start < int (length t)\<close> step have "y = ?chunks' @ ?F []"
          by (simp add: Let_def)
        then have "y = chunks @ ?F [(start, ?e)]" by (simp only: hd)
        moreover from True \<open>start < int (length t)\<close>
        have "window_run t csize overlap start [(start, ?e)]" by simp
        ultimately show ?thesis by blast
      next
        case False
        with \<open>start < int (length t)\<close> step
        have "f t csize overlap (?e - overlap) ?chunks' = Some y" by (simp add: Let_def)
        from IH[OF this] obtain ws where ws: "window_run t csize overlap (?e - overlap) ws"
          "y = ?chunks' @ ?F ws" by blast
        from ws(2) have "y = chunks @ ?F ((start, ?e) # ws)" by (simp only: hd)
        moreover from False \<open>start < int (length t)\<close> ws(1)
        have "window_run t csize overlap start ((start, ?e) # ws)" by simp
        ultimately show ?thesis by blast
      qed
    qed
  qed
qed

lemma window_run_unique:
  "window_run t csize overlap start ws \<Longrightarrow> window_run t csize overlap start ws' \<Longrightarrow> ws = ws'"
proof (induction ws arbitrary: start ws')
  case Nil
  then show ?case by (cases ws') auto
next
  case (Cons w ws)
  obtain a b where w: "w = (a, b)" by (cases w)
  from Cons.prems(1) w obtain w' ws'' where c: "ws' = w' # ws''"
    using Cons.prems(2) by (cases ws') auto
  obtain a' b' where w': "w' = (a', b')" by (cases w')
  from Cons.prems w w' c have ab: "a' = a" "b' = b" by auto
  show ?case
  proof (cases "b - overlap \<le> 0")
    case True
    with Cons.prems w w' c ab show ?thesis by auto
  next
    case False
    with Cons.prems w w' c ab have "window_run t csize overlap (b - overlap) ws"
      "window_run t csize overlap (b - overlap) ws''" by auto
    then have "ws = ws''" by (rule Cons.IH)
    with w w' c ab show ?thesis by simp
  qed
qed

lemma window_run_bounds:
  "window_run t csize overlap start ws \<Longrightarrow> 0 \<le> start \<Longrightarrow> 0 < csize \<Longrightarrow>
   \<forall>(a, b)\<in>set ws. 0 \<le> a \<and> a < b \<and> b \<le> a + csize"
proof (induction ws arbitrary: start)
  case Nil
  then show ?case by simp
next
  case (Cons w ws)
  obtain a b where w: "w = (a, b)" by (cases w)
  with Cons.prems(1) have ab: "a = start" "b = chunk_end t csize start" by simp_all
  with Cons.prems(2,3) have h: "0 \<le> a \<and> a < b \<and> b \<le> a + csize"
    using chunk_end_greater[of csize start t] chunk_end_le[of start csize t] by simp
  have "\<forall>(a, b)\<in>set ws. 0 \<le> a \<and> a < b \<and> b \<le> a + csize"
  proof (cases "b - overlap \<le> 0")
    case True
    with Cons.prems(1) w show ?thesis by simp
  next
    case False
    with Cons.prems(1) w have "window_run t csize overlap (b - overlap) ws" by auto
    moreover from False have "0 \<le> b - overlap" by simp
    ultimately show ?thesis using Cons.prems(3) by (rule Cons.IH)
  qed
  with h w show ?case by simp
qed

lemma window_run_nth:
  "window_run t csize overlap start ws \<Longrightarrow> i < length ws \<Longrightarrow>
   snd (ws ! i) = chunk_end t csize (fst (ws ! i)) \<and>
   (Suc i < length ws \<longrightarrow> fst (ws ! Suc i) = snd (ws ! i) - overlap)"
proof (induction ws arbitrary: start i)
  case Nil
  then show ?case by simp
next
  case (Cons w ws)
  obtain a b where w: "w = (a, b)" by (cases w)
  with Cons.prems(1) have ab: "a = start" "b = chunk_end t csize start" by simp_all
  show ?case
  proof (cases i)
    case 0
    show ?thesis
    proof (cases ws)
      case Nil
      with 0 w ab show ?thesis by simp
    next
      case (Cons w' ws')
      obtain a' b' where w': "w' = (a', b')" by (cases w')
      from Cons.prems(1) w Cons w' have "a' = b - overlap"
        by (auto split: if_splits)
      with 0 w ab Cons w' show ?thesis by simp
    qed
  next
    case (Suc j)
    with Cons.prems(2) have j: "j < length ws" by simp
    then have "ws \<noteq> []" by auto
    with Cons.prems(1) w have "window_run t csize overlap (b - overlap) ws"
      by (auto split: if_splits)
    from Cons.IH[OF this j] Suc show ?thesis by simp
  qed
qed

lemma window_run_exit:
  "window_run t csize overlap start ws \<Longrightarrow> ws \<noteq> [] \<Longrightarrow>
   snd (last ws) - overlap \<le> 0 \<or> int (length t) \<le> snd (last ws) - overlap"
proof (induction ws arbitrary: start)
  case Nil
  then show ?case by simp
next
  case (Cons w ws)
  obtain a b where w: "w = (a, b)" by (cases w)
  show ?case
  proof (cases "ws = []")
    case True
    with Cons.prems(1) w show ?thesis by (auto split: if_splits)
  next
    case False
    with Cons.prems(1) w have "window_run t csize overlap (b - overlap) ws"
      by (auto split: if_splits)
    from Cons.IH[OF this False] False show ?thesis by simp
  qed
qed

lemma regress_persists:
  "window_run t csize overlap start ws \<Longrightarrow> 0 \<le> start \<Longrightarrow> 0 \<le> overlap \<Longrightarrow>
   overlap < csize \<Longrightarrow> ws \<noteq> [] \<Longrightarrow> chunk_end t csize start - overlap \<le> start \<Longrightarrow>
   snd (last ws) - overlap < int (length t)"
proof (induction ws arbitrary: start)
  case Nil
  then show ?case by simp
next
  case (Cons w ws)
  obtain a b where w: "w = (a, b)" by (cases w)
  with Cons.prems(1) have ab: "a = start" "b = chunk_end t csize start"
    and lt: "start < int (length t)" by simp_all
  show ?case
  proof (cases "ws = []")
    case True
    with w ab Cons.prems(6) lt show ?thesis by simp
  next
    case False
    with Cons.prems(1) w have pos: "\<not> b - overlap \<le> 0"
      and run: "window_run t csize overlap (b - overlap) ws"
      by (auto split: if_splits)
    from pos have s'0: "0 \<le> b - overlap" by simp
    have "chunk_end t csize (b - overlap) \<le> chunk_end t csize start"
      using Cons.prems(2,3,4) _ _ s'0
    proof (rule chunk_end_regress)
      show "b - overlap = chunk_end t csize start - overlap" using ab by simp
      show "b - overlap \<le> start" using ab Cons.prems(6) by simp
    qed
    with ab have "chunk_end t csize (b - overlap) - overlap \<le> b - overlap" by simp
    from Cons.IH[OF run s'0 Cons.prems(3,4) False this] False show ?thesis by simp
  qed
qed

lemma window_run_progress:
  "window_run t csize overlap start ws \<Longrightarrow> 0 \<le> start \<Longrightarrow> 0 \<le> overlap \<Longrightarrow>
   overlap < csize \<Longrightarrow> ws \<noteq> [] \<Longrightarrow> 0 < snd (last ws) - overlap \<Longrightarrow>
   \<forall>(a, b)\<in>set ws. a < b - overlap"
proof (induction ws arbitrary: start)
  case Nil
  then show ?case by simp
next
  case (Cons w ws)
  obtain a b where w: "w = (a, b)" by (cases w)
  with Cons.prems(1) have ab: "a = start" "b = chunk_end t csize start" by simp_all
  have hd: "a < b - overlap"
  proof (rule ccontr)
    assume "\<not> a < b - overlap"
    with ab have "chunk_end t csize start - overlap \<le> start" by simp
    from regress_persists[OF Cons.prems(1,2,3,4,5) this]
    have "snd (last (w # ws)) - overlap < int (length t)" .
    with window_run_exit[OF Cons.prems(1,5)] Cons.prems(6) show False by simp
  qed
  have "\<forall>(a, b)\<in>set ws. a < b - overlap"
  proof (cases "ws = []")
    case True
    then show ?thesis by simp
  next
    case False
    with Cons.prems(1) w have pos: "\<not> b - overlap \<le> 0"
      and run: "window_run t csize overlap (b - overlap) ws"
      by (auto split: if_splits)
    from pos have s'0: "0 \<le> b - overlap" by simp
    from Cons.prems(6) False have "0 < snd (last ws) - overlap" by simp
    from Cons.IH[OF run s'0 Cons.prems(3,4) False this] show ?thesis .
  qed
  with hd w show ?case by simp
qed

lemma slice_then_rest:
  assumes "0 \<le> s" and "0 \<le> ov" and "s + ov \<le> b"
  shows "drop (nat ov) (py_slice t s b) @ drop (nat b) t = drop (nat (s + ov)) t"
proof -
  define S O' B where "S = nat s" and "O' = nat ov" and "B = nat b"
  from assms have SB: "S + O' \<le> B" and so: "nat (s + ov) = S + O'"
    unfolding S_def O'_def B_def by (simp_all add: nat_add_distrib)
  from assms have adj: "adjust_index (length t) s = min (length t) S"
    "adjust_index (length t) b = min (length t) B"
    unfolding S_def B_def by (simp_all add: adjust_index_def)
  have sl: "drop O' (py_slice t s b) =
      take (min (length t) B - min (length t) S - O') (drop (min (length t) S + O') t)"
    by (simp add: py_slice_def Let_def adj drop_take add.commute)
  show ?thesis
  proof (cases "B \<le> length t")
    case True
    with SB have "min (length t) B = B" "min (length t) S = S" by simp_all
    with sl have "drop O' (py_slice t s b) = take (B - (S + O')) (drop (S + O') t)" by simp
    moreover from SB have "drop B t = drop (B - (S + O')) (drop (S + O') t)" by simp
    ultimately have "drop O' (py_slice t s b) @ drop B t = drop (S + O') t"
      by (simp only: append_take_drop_id)
    then show ?thesis unfolding so O'_def B_def .
  next
    case False
    then have "drop B t = []" by simp
    moreover have "drop O' (py_slice t s b) = drop (S + O') t"
    proof (cases "S \<le> length t")
      case True
      with False sl show ?thesis by simp
    next
      case False
      with sl show ?thesis by simp
    qed
    ultimately show ?thesis unfolding so O'_def B_def by simp
  qed
qed

lemma window_run_concat:
  "window_run t csize overlap start ws \<Longrightarrow> 0 \<le> start \<Longrightarrow> 0 \<le> overlap \<Longrightarrow>
   \<forall>(a, b)\<in>set ws. a < b - overlap \<Longrightarrow> (ws \<noteq> [] \<longrightarrow> 0 < snd (last ws) - overlap) \<Longrightarrow>
   concat (map (\<lambda>(a, b). drop (nat overlap) (py_slice t a b)) ws) = drop (nat (start + overlap)) t"
proof (induction ws arbitrary: start)
  case Nil
  then show ?case by simp
next
  case (Cons w ws)
  obtain a b where w: "w = (a, b)" by (cases w)
  with Cons.prems(1) have ab: "a = start" "b = chunk_end t csize start" by simp_all
  from Cons.prems(4) w ab have adv: "start + overlap \<le> b" by simp
  have pos: "0 < b - overlap"
  proof (cases "ws = []")
    case True
    with Cons.prems(5) w show ?thesis by simp
  next
    case False
    with Cons.prems(1) w show ?thesis by (auto split: if_splits)
  qed
  with Cons.prems(1) w have run: "window_run t csize overlap (b - overlap) ws" by auto
  from pos have s'0: "0 \<le> b - overlap" by simp
  from Cons.prems(4) have all: "\<forall>(a, b)\<in>set ws. a < b - overlap" by simp
  from Cons.prems(5) have lst: "ws \<noteq> [] \<longrightarrow> 0 < snd (last ws) - overlap" by auto
  from Cons.IH[OF run s'0 Cons.prems(3) all lst]
  have "concat (map (\<lambda>(a, b). drop (nat overlap) (py_slice t a b)) ws) = drop (nat b) t"
    by simp
  with w ab slice_then_rest[OF Cons.prems(2,3) adv, of t] show ?case by simp
qed

section \<open>Two runs of the chunker\<close>

lemma length_sample_text: "length sample_text = 55"
  by (simp add: sample_text_def str_def)

lemma length_letters_text: "length letters_text = 25"
  by (simp add: letters_text_def str_def)

lemma sample_run:
  "split_text_into_chunks \<lparr>chunk_size = 20, chunk_overlap = 0\<rparr> sample_text =
   Some [str ''Hello world.'', str ''This is a test'', str ''sentence that'', str ''continues on.'']"
proof -
  have e1: "chunk_end sample_text 20 0 = 12" by code_simp
  have e2: "chunk_end sample_text 20 12 = 27" by code_simp
  have e3: "chunk_end sample_text 20 27 = 41" by code_simp
  have e4: "chunk_end sample_text 20 41 = 61" by code_simp
  have c1: "strip (py_slice sample_text 0 12) = str ''Hello world.''"
    by (simp add: sample_text_def str_def py_slice_def adjust_index_def strip_def isspace_def)
  have c2: "strip (py_slice sample_text 12 27) = str ''This is a test''"
    by (simp add: sample_text_def str_def py_slice_def adjust_index_def strip_def isspace_def)
  have c3: "strip (py_slice sample_text 27 41) = str ''sentence that''"
    by (simp add: sample_text_def str_def py_slice_def adjust_index_def strip_def isspace_def)
  have c4: "strip (py_slice sample_text 41 61) = str ''continues on.''"
    by (simp add: sample_text_def str_def py_slice_def adjust_index_def strip_def isspace_def)
  have "split_loop sample_text 20 0 0 [] = split_loop sample_text 20 0 12 [str ''Hello world.'']"
    using split_loop_next[OF _ e1 _ c1, of 0 "[]"] by (simp add: length_sample_text str_def)
  also have "\<dots> = split_loop sample_text 20 0 27 [str ''Hello world.'', str ''This is a test'']"
    using split_loop_next[OF _ e2 _ c2, of 0 "[str ''Hello world.'']"]
    by (simp add: length_sample_text str_def)
  also have "\<dots> = split_loop sample_text 20 0 41
      [str ''Hello world.'', str ''This is a test'', str ''sentence that'']"
    using split_loop_next[OF _ e3 _ c3, of 0 "[str ''Hello world.'', str ''This is a test'']"]
    by (simp add: length_sample_text str_def)
  also have "\<dots> = split_loop sample_text 20 0 61
      [str ''Hello world.'', str ''This is a test'', str ''sentence that'', str ''continues on.'']"
    using split_loop_next[OF _ e4 _ c4, of 0
        "[str ''Hello world.'', str ''This is a test'', str ''sentence that'']"]
    by (simp add: length_sample_text str_def)
  also have "\<dots> =
      Some [str ''Hello world.'', str ''This is a test'', str ''sentence that'', str ''continues on.'']"
    by (rule split_loop_exit) (simp add: length_sample_text)
  finally show ?thesis
    by (simp add: split_text_into_chunks_def length_sample_text)
qed

lemma letters_run:
  "split_text_into_chunks \<lparr>chunk_size = 10, chunk_overlap = 2\<rparr> letters_text =
   Some [str ''abcdefghij'', str ''ijklmnopqr'', str ''qrstuvwxy'', str ''y'']"
proof -
  have e1: "chunk_end letters_text 10 0 = 10" by code_simp
  have e2: "chunk_end letters_text 10 8 = 18" by code_simp
  have e3: "chunk_end letters_text 10 16 = 26" by code_simp
  have e4: "chunk_end letters_text 10 24 = 34" by code_simp
  have c1: "strip (py_slice letters_text 0 10) = str ''abcdefghij''"
    by (simp add: letters_text_def str_def py_slice_def adjust_index_def strip_def isspace_def)
  have c2: "strip (py_slice letters_text 8 18) = str ''ijklmnopqr''"
    by (simp add: letters_text_def str_def py_slice_def adjust_index_def strip_def isspace_def)
  have c3: "strip (py_slice letters_text 16 26) = str ''qrstuvwxy''"
    by (simp add: letters_text_def str_def py_slice_def adjust_index_def strip_def isspace_def)
  have c4: "strip (py_slice letters_text 24 34) = str ''y''"
    by (simp add: letters_text_def str_def py_slice_def adjust_index_def strip_def isspace_def)
  have "split_loop letters_text 10 2 0 [] = split_loop letters_text 10 2 8 [str ''abcdefghij'']"
    using split_loop_next[OF _ e1 _ c1, of 2 "[]"] by (simp add: length_letters_text str_def)
  also have "\<dots> = split_loop letters_text 10 2 16 [str ''abcdefghij'', str ''ijklmnopqr'']"
    using split_loop_next[OF _ e2 _ c2, of 2 "[str ''abcdefghij'']"]
    by (simp add: length_letters_text str_def)
  also have "\<dots> = split_loop letters_text 10 2 24
      [str ''abcdefghij'', str ''ijklmnopqr'', str ''qrstuvwxy'']"
    using split_loop_next[OF _ e3 _ c3, of 2 "[str ''abcdefghij'', str ''ijklmnopqr'']"]
    by (simp add: length_letters_text str_def)
  also have "\<dots> = split_loop letters_text 10 2 32
      [str ''abcdefghij'', str ''ijklmnopqr'', str ''qrstuvwxy'', str ''y'']"
    using split_loop_next[OF _ e4 _ c4, of 2
        "[str ''abcdefghij'', str ''ijklmnopqr'', str ''qrstuvwxy'']"]
    by (simp add: length_letters_text str_def)
  also have "\<dots> =
      Some [str ''abcdefghij'', str ''ijklmnopqr'', str ''qrstuvwxy'', str ''y'']"
    by (rule split_loop_exit) (simp add: length_letters_text)
  finally show ?thesis
    by (simp add: split_text_into_chunks_def length_letters_text)
qed

lemma sample_cuts:
  "chunk_end sample_text 20 0 = 12" "chunk_end sample_text 20 12 = 27"
  "chunk_end sample_text 20 27 = 41" "chunk_end sample_text 20 41 = 61"
  by code_simp+

lemma sample_slices:
  "strip (py_slice sample_text 0 12) = str ''Hello world.''"
  "strip (py_slice sample_text 12 27) = str ''This is a test''"
  "strip (py_slice sample_text 27 41) = str ''sentence that''"
  "strip (py_slice sample_text 41 61) = str ''continues on.''"
  by (simp_all add: sample_text_def str_def py_slice_def adjust_index_def strip_def isspace_def)

lemma letters_cuts:
  "chunk_end letters_text 10 0 = 10" "chunk_end letters_text 10 8 = 18"
  "chunk_end letters_text 10 16 = 26" "chunk_end letters_text 10 24 = 34"
  by code_simp+

lemma letters_slices:
  "strip (py_slice letters_text 0 10) = str ''abcdefghij''"
  "strip (py_slice letters_text 8 18) = str ''ijklmnopqr''"
  "strip (py_slice letters_text 16 26) = str ''qrstuvwxy''"
  "strip (py_slice letters_text 24 34) = str ''y''"
  by (simp_all add: letters_text_def str_def py_slice_def adjust_index_def strip_def isspace_def)

lemma sample_windows:
  "window_run sample_text 20 0 0 [(0, 12), (12, 27), (27, 41), (41, 61)]"
  by (simp add: length_sample_text sample_cuts)

lemma letters_windows:
  "window_run letters_text 10 2 0 [(0, 10), (8, 18), (16, 26), (24, 34)]"
  by (simp add: length_letters_text letters_cuts)

section \<open>Claims about the chunker\<close>

text \<open>
  Claim C3. For a text no longer than \<open>chunk_size\<close> the chunking function is claimed to
  return one chunk equal to the stripped input, and nothing for a blank input. The early
  return at line 122 hands back the text as it is: with the default configuration the
  input \<^verbatim>\<open>" a "\<close> comes back with its blanks, although stripping it gives \<^verbatim>\<open>"a"\<close>, and
  the blank input \<^verbatim>\<open>"  "\<close> comes back as a whitespace-only chunk. The loop below the
  early return strips every chunk and drops the empty ones.
\<close>

theorem short_text_is_returned_unstripped:
  "split_text_into_chunks \<lparr>chunk_size = 1000, chunk_overlap = 200\<rparr> (str '' a '') = Some [str '' a '']
   \<and> strip (str '' a '') = str ''a''
   \<and> split_text_into_chunks \<lparr>chunk_size = 1000, chunk_overlap = 200\<rparr> (str ''  '') = Some [str ''  '']"
  by (simp add: split_text_into_chunks_def str_def strip_def isspace_def)

text \<open>
  Claim C4. The chunking loop is claimed to terminate for every text when
  \<open>0 < chunk_size\<close> and \<open>0 \<le> overlap < chunk_size\<close>. With \<open>chunk_size = 20\<close> and
  \<open>overlap = 5\<close> on the text below the first window is cut after \<^verbatim>\<open>"Hello world."\<close> at
  12, the next window starts at 7, is cut at 12 again, and so on for ever: the guard
  \<^verbatim>\<open>start <= 0\<close> never fires and the function does not return.
\<close>

theorem split_loop_never_returns:
  "split_text_into_chunks \<lparr>chunk_size = 20, chunk_overlap = 5\<rparr> sample_text = None"
proof -
  have e0: "chunk_end sample_text 20 0 = 12" by code_simp
  have e7: "chunk_end sample_text 20 7 = 12" by code_simp
  have "split_loop sample_text 20 5 0 [] =
        split_loop sample_text 20 5 (12 - 5)
          (if strip (py_slice sample_text 0 12) \<noteq> [] then [] @ [strip (py_slice sample_text 0 12)] else [])"
    by (rule split_loop_next[OF _ e0]) (simp_all add: length_sample_text)
  moreover have "split_loop sample_text 20 5 (12 - 5) cs = None" for cs
  proof (cases "split_loop sample_text 20 5 (12 - 5) cs")
    case None
    then show ?thesis .
  next
    case (Some y)
    from split_loop_stuck[OF this] e7 show ?thesis by (simp add: length_sample_text)
  qed
  ultimately have "split_loop sample_text 20 5 0 [] = None" by simp
  then show ?thesis by (simp add: split_text_into_chunks_def length_sample_text)
qed

text \<open>
  Claim C9. With \<open>0 < chunk_size\<close> and \<open>0 \<le> overlap < chunk_size\<close>, the boundary search
  never moves the cut point past \<open>start + chunk_size\<close>, and every chunk that the
  chunking function returns has at most \<open>chunk_size\<close> characters.
\<close>

theorem chunk_length_bound:
  assumes "0 < chunk_size self" and "0 \<le> chunk_overlap self"
    and "chunk_overlap self < chunk_size self"
  shows "(\<forall>start\<ge>0. chunk_end t (chunk_size self) start \<le> start + chunk_size self) \<and>
         (\<forall>chunks. split_text_into_chunks self t = Some chunks \<longrightarrow>
            (\<forall>c\<in>set chunks. int (length c) \<le> chunk_size self))"
proof (intro conjI allI impI ballI)
  fix start :: int assume "0 \<le> start"
  then show "chunk_end t (chunk_size self) start \<le> start + chunk_size self"
    using assms(1) by (rule chunk_end_le)
next
  fix chunks c
  assume r: "split_text_into_chunks self t = Some chunks" and c: "c \<in> set chunks"
  show "int (length c) \<le> chunk_size self"
  proof (cases "int (length t) \<le> chunk_size self")
    case True
    with r c show ?thesis by (auto simp: split_text_into_chunks_def)
  next
    case False
    with r have "split_loop t (chunk_size self) (chunk_overlap self) 0 [] = Some chunks"
      by (simp add: split_text_into_chunks_def)
    from split_loop_windows[OF this] assms(1) c have "window_chunk t (chunk_size self) c"
      by auto
    then show ?thesis by (rule window_chunk_length)
  qed
qed

theorem chunk_length_bound_witness:
  "(0::int) < 10 \<and> (0::int) \<le> 2 \<and> (2::int) < 10 \<and>
   chunk_end letters_text 10 0 \<le> 0 + 10 \<and>
   split_text_into_chunks \<lparr>chunk_size = 10, chunk_overlap = 2\<rparr> letters_text =
     Some [str ''abcdefghij'', str ''ijklmnopqr'', str ''qrstuvwxy'', str ''y''] \<and>
   int (length (str ''abcdefghij'')) \<le> 10 \<and> int (length (str ''ijklmnopqr'')) \<le> 10 \<and>
   int (length (str ''qrstuvwxy'')) \<le> 10 \<and> int (length (str ''y'')) \<le> 10"
proof -
  have h: "0 < chunk_size \<lparr>chunk_size = 10, chunk_overlap = 2\<rparr>"
    "0 \<le> chunk_overlap \<lparr>chunk_size = 10, chunk_overlap = 2\<rparr>"
    "chunk_overlap \<lparr>chunk_size = 10, chunk_overlap = 2\<rparr> < chunk_size \<lparr>chunk_size = 10, chunk_overlap = 2\<rparr>"
    by simp_all
  note b = chunk_length_bound[OF h, of letters_text]
  from b[THEN conjunct1, rule_format, of 0] have "chunk_end letters_text 10 0 \<le> 0 + 10" by simp
  moreover from b[THEN conjunct2, rule_format, OF letters_run]
  have "c \<in> set [str ''abcdefghij'', str ''ijklmnopqr'', str ''qrstuvwxy'', str ''y''] \<Longrightarrow>
        int (length c) \<le> 10" for c
    by simp
  then have "int (length (str ''abcdefghij'')) \<le> 10" "int (length (str ''ijklmnopqr'')) \<le> 10"
    "int (length (str ''qrstuvwxy'')) \<le> 10" "int (length (str ''y'')) \<le> 10"
    by simp_all
  ultimately show ?thesis using letters_run by simp
qed

text \<open>
  Claim C5, as stated: for a text longer than \<open>chunk_size\<close> the chunks, with the overlap
  removed from every chunk after the first, concatenate to the text. It fails already
  without overlap: the chunks are stripped, so the blanks at the cut points are lost.
\<close>

theorem reconstruction_counterexample:
  "int (length sample_text) > 20 \<and>
   split_text_into_chunks \<lparr>chunk_size = 20, chunk_overlap = 0\<rparr> sample_text =
     Some [str ''Hello world.'', str ''This is a test'', str ''sentence that'', str ''continues on.''] \<and>
   reconstruct 0 [str ''Hello world.'', str ''This is a test'', str ''sentence that'', str ''continues on.'']
     \<noteq> sample_text"
  using sample_run by (simp add: length_sample_text reconstruct_def sample_text_def str_def)

text \<open>
  Claim C5, amended: for a text longer than \<open>chunk_size\<close> and a valid overlap, if the
  chunking function returns, its result is fixed by a sequence of windows \<open>[s\<^sub>i, e\<^sub>i)\<close> of
  the text: the first starts at 0, every \<open>e\<^sub>i\<close> is the cut point that the boundary search
  picks for \<open>s\<^sub>i\<close> (so \<open>s\<^sub>i < e\<^sub>i \<le> s\<^sub>i + chunk_size\<close>), and every next window starts at
  \<open>e\<^sub>i - overlap\<close>. The returned chunks are, in this order, the whitespace-stripped slices
  \<^verbatim>\<open>text[s:e]\<close> of the windows, without the slices that strip to nothing; so every chunk
  is a non-empty contiguous piece of the text that neither starts nor ends with
  whitespace. When the loop ends by running past the end of the text (the last cut point
  minus the overlap is positive), the unstripped slices, with the first \<open>overlap\<close>
  characters removed from every slice after the first, concatenate to the original text
  exactly. Nothing is said about coverage when the loop leaves through its
  \<^verbatim>\<open>start <= 0\<close> break.
\<close>

theorem chunks_are_stripped_windows:
  assumes "chunk_size self < int (length t)"
    and "0 < chunk_size self" and "0 \<le> chunk_overlap self"
    and "chunk_overlap self < chunk_size self"
    and "split_text_into_chunks self t = Some chunks"
  shows "\<exists>ws. window_run t (chunk_size self) (chunk_overlap self) 0 ws \<and>
           ws \<noteq> [] \<and> fst (hd ws) = 0 \<and>
           (\<forall>i<length ws.
              0 \<le> fst (ws ! i) \<and> fst (ws ! i) < snd (ws ! i) \<and>
              snd (ws ! i) \<le> fst (ws ! i) + chunk_size self \<and>
              snd (ws ! i) = chunk_end t (chunk_size self) (fst (ws ! i)) \<and>
              (Suc i < length ws \<longrightarrow> fst (ws ! Suc i) = snd (ws ! i) - chunk_overlap self)) \<and>
           chunks = filter (\<lambda>c. c \<noteq> []) (map (\<lambda>(a, b). strip (py_slice t a b)) ws) \<and>
           (\<forall>c\<in>set chunks. c \<noteq> [] \<and> \<not> isspace (hd c) \<and> \<not> isspace (last c) \<and>
              (\<exists>pre post. t = pre @ c @ post)) \<and>
           (0 < snd (last ws) - chunk_overlap self \<longrightarrow>
              reconstruct (chunk_overlap self) (map (\<lambda>(a, b). py_slice t a b) ws) = t)"
proof -
  let ?cs = "chunk_size self" and ?ov = "chunk_overlap self"
  from assms(1,5) have loop: "split_loop t ?cs ?ov 0 [] = Some chunks"
    by (simp add: split_text_into_chunks_def)
  from split_loop_run[OF loop] obtain ws where run: "window_run t ?cs ?ov 0 ws"
    and ch: "chunks = filter (\<lambda>c. c \<noteq> []) (map (\<lambda>(a, b). strip (py_slice t a b)) ws)"
    by auto
  from assms(1,2) have len: "0 < int (length t)" by linarith
  with run obtain b ws' where ws: "ws = (0, b) # ws'"
    by (cases ws) auto
  then have ne: "ws \<noteq> []" and h0: "fst (hd ws) = 0" by simp_all
  have idx: "0 \<le> fst (ws ! i) \<and> fst (ws ! i) < snd (ws ! i) \<and>
      snd (ws ! i) \<le> fst (ws ! i) + ?cs \<and>
      snd (ws ! i) = chunk_end t ?cs (fst (ws ! i)) \<and>
      (Suc i < length ws \<longrightarrow> fst (ws ! Suc i) = snd (ws ! i) - ?ov)" if "i < length ws" for i
  proof -
    from that have "ws ! i \<in> set ws" by simp
    with window_run_bounds[OF run _ assms(2)]
    have "0 \<le> fst (ws ! i) \<and> fst (ws ! i) < snd (ws ! i) \<and> snd (ws ! i) \<le> fst (ws ! i) + ?cs"
      by (auto simp: case_prod_unfold)
    with window_run_nth[OF run that] show ?thesis by simp
  qed
  have trimmed: "c \<noteq> [] \<and> \<not> isspace (hd c) \<and> \<not> isspace (last c) \<and>
      (\<exists>pre post. t = pre @ c @ post)" if "c \<in> set chunks" for c
  proof -
    from split_loop_windows[OF loop] assms(2) that have "window_chunk t ?cs c" by auto
    then show ?thesis by (rule window_chunk_trimmed)
  qed
  have rec: "reconstruct ?ov (map (\<lambda>(a, b). py_slice t a b) ws) = t"
    if exit: "0 < snd (last ws) - ?ov"
  proof -
    have prog: "\<forall>(a, b)\<in>set ws. a < b - ?ov"
      using run _ assms(3,4) ne exit by (rule window_run_progress) simp
    from run ws have b: "b = chunk_end t ?cs 0" by simp
    have pos: "0 < b - ?ov"
    proof (cases "ws' = []")
      case True
      with exit ws show ?thesis by simp
    next
      case False
      with run ws show ?thesis by (auto split: if_splits)
    qed
    with run ws have run': "window_run t ?cs ?ov (b - ?ov) ws'" by auto
    from prog ws have prog': "\<forall>(a, b)\<in>set ws'. a < b - ?ov" by simp
    from exit ws have exit': "ws' \<noteq> [] \<longrightarrow> 0 < snd (last ws') - ?ov" by auto
    from pos have "0 \<le> b - ?ov" by simp
    from window_run_concat[OF run' this assms(3) prog' exit']
    have tl: "concat (map (\<lambda>(a, b). drop (nat ?ov) (py_slice t a b)) ws') = drop (nat b) t"
      by simp
    have mm: "map (drop (nat ?ov)) (map (\<lambda>(a, b). py_slice t a b) ws') =
          map (\<lambda>(a, b). drop (nat ?ov) (py_slice t a b)) ws'"
      by (induction ws') auto
    have "reconstruct ?ov (map (\<lambda>(a, b). py_slice t a b) ws) =
        py_slice t 0 b @ concat (map (drop (nat ?ov)) (map (\<lambda>(a, b). py_slice t a b) ws'))"
      by (simp add: reconstruct_def ws del: map_map)
    then have r: "reconstruct ?ov (map (\<lambda>(a, b). py_slice t a b) ws) =
        py_slice t 0 b @ drop (nat b) t"
      by (simp only: mm tl)
    have ps: "py_slice t 0 b = take (nat b) t"
      using pos assms(3) by (simp add: py_slice_def adjust_index_def Let_def min_def)
    from r show ?thesis by (simp only: ps append_take_drop_id)
  qed
  from run ne h0 idx ch trimmed rec show ?thesis by blast
qed

theorem chunks_are_stripped_windows_witness:
  "(20::int) < int (length sample_text) \<and> (0::int) < 20 \<and> (0::int) \<le> 0 \<and>
   split_text_into_chunks \<lparr>chunk_size = 20, chunk_overlap = 0\<rparr> sample_text =
     Some [str ''Hello world.'', str ''This is a test'', str ''sentence that'', str ''continues on.''] \<and>
   window_run sample_text 20 0 0 [(0, 12), (12, 27), (27, 41), (41, 61)] \<and>
   [str ''Hello world.'', str ''This is a test'', str ''sentence that'', str ''continues on.''] =
     filter (\<lambda>c. c \<noteq> [])
       (map (\<lambda>(a, b). strip (py_slice sample_text a b)) [(0, 12), (12, 27), (27, 41), (41, 61)]) \<and>
   reconstruct 0 (map (\<lambda>(a, b). py_slice sample_text a b) [(0, 12), (12, 27), (27, 41), (41, 61)]) =
     sample_text \<and>
   (10::int) < int (length letters_text) \<and> (0::int) < 10 \<and> (0::int) \<le> 2 \<and> (2::int) < 10 \<and>
   split_text_into_chunks \<lparr>chunk_size = 10, chunk_overlap = 2\<rparr> letters_text =
     Some [str ''abcdefghij'', str ''ijklmnopqr'', str ''qrstuvwxy'', str ''y''] \<and>
   window_run letters_text 10 2 0 [(0, 10), (8, 18), (16, 26), (24, 34)] \<and>
   [str ''abcdefghij'', str ''ijklmnopqr'', str ''qrstuvwxy'', str ''y''] =
     filter (\<lambda>c. c \<noteq> [])
       (map (\<lambda>(a, b). strip (py_slice letters_text a b)) [(0, 10), (8, 18), (16, 26), (24, 34)]) \<and>
   reconstruct 2 (map (\<lambda>(a, b). py_slice letters_text a b) [(0, 10), (8, 18), (16, 26), (24, 34)]) =
     letters_text"
proof -
  let ?w1 = "[(0, 12), (12, 27), (27, 41), (41, 61)] :: (int \<times> int) list"
  let ?w2 = "[(0, 10), (8, 18), (16, 26), (24, 34)] :: (int \<times> int) list"
  let ?c1 = "[str ''Hello world.'', str ''This is a test'', str ''sentence that'', str ''continues on.'']"
  let ?c2 = "[str ''abcdefghij'', str ''ijklmnopqr'', str ''qrstuvwxy'', str ''y'']"
  have a: "?c1 = filter (\<lambda>c. c \<noteq> []) (map (\<lambda>(a, b). strip (py_slice sample_text a b)) ?w1) \<and>
           reconstruct 0 (map (\<lambda>(a, b). py_slice sample_text a b) ?w1) = sample_text"
  proof -
    from chunks_are_stripped_windows[of "\<lparr>chunk_size = 20, chunk_overlap = 0\<rparr>" sample_text ?c1]
      sample_run
    obtain ws where ws: "window_run sample_text 20 0 0 ws"
      "?c1 = filter (\<lambda>c. c \<noteq> []) (map (\<lambda>(a, b). strip (py_slice sample_text a b)) ws)"
      "0 < snd (last ws) - 0 \<longrightarrow>
         reconstruct 0 (map (\<lambda>(a, b). py_slice sample_text a b) ws) = sample_text"
      by (auto simp: length_sample_text)
    from ws(1) sample_windows have "ws = ?w1" by (rule window_run_unique)
    with ws(2,3) show ?thesis by simp
  qed
  have b: "?c2 = filter (\<lambda>c. c \<noteq> []) (map (\<lambda>(a, b). strip (py_slice letters_text a b)) ?w2) \<and>
           reconstruct 2 (map (\<lambda>(a, b). py_slice letters_text a b) ?w2) = letters_text"
  proof -
    from chunks_are_stripped_windows[of "\<lparr>chunk_size = 10, chunk_overlap = 2\<rparr>" letters_text ?c2]
      letters_run
    obtain ws where ws: "window_run letters_text 10 2 0 ws"
      "?c2 = filter (\<lambda>c. c \<noteq> []) (map (\<lambda>(a, b). strip (py_slice letters_text a b)) ws)"
      "0 < snd (last ws) - 2 \<longrightarrow>
         reconstruct 2 (map (\<lambda>(a, b). py_slice letters_text a b) ws) = letters_text"
      by (auto simp: length_letters_text)
    from ws(1) letters_windows have "ws = ?w2" by (rule window_run_unique)
    with ws(2,3) show ?thesis by simp
  qed
  from a b sample_run letters_run sample_windows letters_windows show ?thesis
    by (simp add: length_sample_text length_letters_text)
qed

section \<open>Claims about the query pipeline\<close>

lemma doc_text_tiny0: "doc_text 0 tiny_hit = str ''[Source 1 - s]\<newline>a\<newline>''"
  by (simp add: doc_text_def tiny_hit_def str_def str_of_nat.simps)

lemma doc_text_tiny1: "doc_text (Suc 0) tiny_hit = str ''[Source 2 - s]\<newline>a\<newline>''"
  by (simp add: doc_text_def tiny_hit_def str_def str_of_nat.simps)

lemma retrieve_tiny: "retrieve_documents (tiny_pipeline n g) q k = Inr [tiny_hit, tiny_hit]"
  by (simp add: retrieve_documents_def tiny_pipeline_def try_except_def sort_reverse_def
      tiny_hit_def tiny_document_def)

text \<open>
  Claim C1. The context returned by \<^verbatim>\<open>_prepare_context\<close> is claimed to have at most
  \<open>max_context_length\<close> characters. The loop budgets the blocks only; the newline that
  \<^verbatim>\<open>join\<close> puts between two blocks is not counted. Two hits whose blocks have 17
  characters each fit a budget of 34 exactly, and the context has 35 characters.
\<close>

theorem context_exceeds_budget:
  "max_context_length (tiny_pipeline 34 g) = 34 \<and>
   length (prepare_context (tiny_pipeline 34 g) [tiny_hit, tiny_hit]) = 35"
  by (simp add: prepare_context_def tiny_pipeline_def doc_text_tiny0 doc_text_tiny1 str_def Let_def)


section \<open>Facts about the pipeline's steps\<close>

lemma str_nonempty: "s \<noteq> [] \<Longrightarrow> str s \<noteq> []"
  by (simp add: str_def)

lemma retrieve_documents_total: "\<exists>docs. retrieve_documents self q k = Inr docs"
  by (cases "vector_store self q k") (simp_all add: retrieve_documents_def try_except_def)

lemma retrieve_documents_failure:
  "vector_store self q k = Inl e \<Longrightarrow> retrieve_documents self q k = Inr []"
  by (simp add: retrieve_documents_def try_except_def)

lemma generate_answer_failure:
  "gemini_client self (prompt q c) = Inl e \<Longrightarrow>
   generate_answer self q c =
     Inr (str ''I encountered an error while generating an answer: '' @ str_of_error e)"
  by (simp add: generate_answer_def try_except_def)

lemma generate_answer_total: "\<exists>a. generate_answer self q c = Inr a \<and> a \<noteq> []"
proof (cases "gemini_client self (prompt q c)")
  case (Inl e)
  have "str ''I encountered an error while generating an answer: '' \<noteq> []"
    by (rule str_nonempty) simp
  with generate_answer_failure[OF Inl] show ?thesis by simp
next
  case (Inr a)
  have "str ''I was unable to generate an answer to your question. Please try rephrasing your question or check if your documents contain relevant information.'' \<noteq> []"
    by (rule str_nonempty) simp
  with Inr show ?thesis by (simp add: generate_answer_def try_except_def)
qed

lemma query_no_documents:
  "retrieve_documents self q k = Inr [] \<Longrightarrow>
   query self q k =
     Inr \<lparr>answer = str ''I couldn't find any relevant information in the uploaded documents to answer your question.'',
          sources = []\<rparr>"
  by (simp add: query_def try_except_def)

lemma query_with_documents:
  "retrieve_documents self q k = Inr docs \<Longrightarrow> docs \<noteq> [] \<Longrightarrow>
   generate_answer self q (prepare_context self docs) = Inr a \<Longrightarrow>
   query self q k = Inr \<lparr>answer = a, sources = format_sources docs\<rparr>"
  by (simp add: query_def try_except_def Let_def)

lemma context_loop_prefix:
  "\<exists>n\<le>length docs. context_loop m i docs parts cur =
     parts @ map (\<lambda>j. doc_text (i + j) (docs ! j)) [0..<n]"
proof (induction docs arbitrary: i parts cur)
  case Nil
  then show ?case by simp
next
  case (Cons doc docs)
  show ?case
  proof (cases "cur + int (length (doc_text i doc)) > m")
    case True
    then have "context_loop m i (doc # docs) parts cur =
        parts @ map (\<lambda>j. doc_text (i + j) ((doc # docs) ! j)) [0..<0]"
      by (simp add: Let_def)
    then show ?thesis by blast
  next
    case False
    from Cons.IH[of "i + 1" "parts @ [doc_text i doc]" "cur + int (length (doc_text i doc))"]
    obtain n where n: "n \<le> length docs"
      "context_loop m (i + 1) docs (parts @ [doc_text i doc]) (cur + int (length (doc_text i doc))) =
       (parts @ [doc_text i doc]) @ map (\<lambda>j. doc_text (i + 1 + j) (docs ! j)) [0..<n]"
      by blast
    have "map (\<lambda>j. doc_text (i + j) ((doc # docs) ! j)) [0..<Suc n] =
          doc_text i doc # map (\<lambda>j. doc_text (i + 1 + j) (docs ! j)) [0..<n]"
      by (simp add: map_upt_Suc del: upt_Suc)
    with n(2) False have "context_loop m i (doc # docs) parts cur =
        parts @ map (\<lambda>j. doc_text (i + j) ((doc # docs) ! j)) [0..<Suc n]"
      by (simp add: Let_def del: upt_Suc)
    moreover from n(1) have "Suc n \<le> length (doc # docs)" by simp
    ultimately show ?thesis by blast
  qed
qed

lemma source_info_tiny: "source_info tiny_hit = tiny_hit"
  by (simp add: source_info_def tiny_hit_def str_def)

lemma context_tiny_20: "context_loop 20 0 [tiny_hit, tiny_hit] [] 0 = [doc_text 0 tiny_hit]"
  by (simp add: doc_text_tiny0 doc_text_tiny1 str_def Let_def)

text \<open>
  Claim C2, as stated: the returned sources are the hits included in the context, trimmed
  to the number of blocks used. With a budget of 20 only the first of two retrieved hits
  enters the context, and both are returned as sources.
\<close>

theorem sources_not_trimmed_counterexample:
  "retrieve_documents (tiny_pipeline 20 ok_gemini) (str ''q'') 4 = Inr [tiny_hit, tiny_hit] \<and>
   context_loop (max_context_length (tiny_pipeline 20 ok_gemini)) 0 [tiny_hit, tiny_hit] [] 0 =
     [doc_text 0 tiny_hit] \<and>
   query (tiny_pipeline 20 ok_gemini) (str ''q'') 4 =
     Inr \<lparr>answer = str ''ok'', sources = [tiny_hit, tiny_hit]\<rparr> \<and>
   [tiny_hit, tiny_hit] \<noteq> format_sources (take 1 [tiny_hit, tiny_hit])"
proof -
  have g: "generate_answer (tiny_pipeline 20 ok_gemini) (str ''q'')
             (prepare_context (tiny_pipeline 20 ok_gemini) [tiny_hit, tiny_hit]) = Inr (str ''ok'')"
    by (simp add: generate_answer_def try_except_def tiny_pipeline_def ok_gemini_def str_def
        strip_def isspace_def)
  have "query (tiny_pipeline 20 ok_gemini) (str ''q'') 4 =
     Inr \<lparr>answer = str ''ok'', sources = format_sources [tiny_hit, tiny_hit]\<rparr>"
    by (rule query_with_documents[OF retrieve_tiny _ g]) simp
  moreover have "max_context_length (tiny_pipeline 20 ok_gemini) = 20"
    by (simp add: tiny_pipeline_def)
  ultimately show ?thesis
    using retrieve_tiny[of 20 ok_gemini "str ''q''" 4] context_tiny_20
    by (simp add: format_sources_def source_info_tiny)
qed

text \<open>
  Claim C2, amended: for every query that retrieves at least one hit, the sources list
  holds every retrieved hit (formatted), in the retrieval order that the context was built
  from: the Nth source is made from the Nth hit, and the context consists of the blocks of
  the first \<open>n\<close> hits for some \<open>n\<close>, the block of the Nth hit carrying the label
  \<^verbatim>\<open>[Source N\<close>. Hits that the budget kept out of the context are still listed.
\<close>

theorem sources_follow_context_order:
  assumes "retrieve_documents self q k = Inr docs" and "docs \<noteq> []"
  shows "\<exists>r n. query self q k = Inr r \<and> sources r = format_sources docs \<and>
           length (sources r) = length docs \<and>
           (\<forall>i<length docs. sources r ! i = source_info (docs ! i)) \<and>
           n \<le> length docs \<and>
           prepare_context self docs =
             join (str ''\<newline>'') (map (\<lambda>i. doc_text i (docs ! i)) [0..<n]) \<and>
           (\<forall>i<n. \<exists>rest. doc_text i (docs ! i) = str ''[Source '' @ str_of_nat (i + 1) @ rest)"
proof -
  obtain a where a: "generate_answer self q (prepare_context self docs) = Inr a"
    using generate_answer_total by blast
  from query_with_documents[OF assms a]
  have q: "query self q k = Inr \<lparr>answer = a, sources = format_sources docs\<rparr>" .
  obtain n where n: "n \<le> length docs"
    "context_loop (max_context_length self) 0 docs [] 0 =
       [] @ map (\<lambda>j. doc_text (0 + j) (docs ! j)) [0..<n]"
    using context_loop_prefix[of docs "max_context_length self" 0 "[]" 0] by blast
  then have p: "prepare_context self docs =
      join (str ''\<newline>'') (map (\<lambda>i. doc_text i (docs ! i)) [0..<n])"
    by (simp add: prepare_context_def)
  have l: "\<forall>i<n. \<exists>rest. doc_text i (docs ! i) = str ''[Source '' @ str_of_nat (i + 1) @ rest"
    by (simp add: doc_text_def)
  have s: "\<forall>i<length docs. format_sources docs ! i = source_info (docs ! i)"
    by (simp add: format_sources_def)
  have "sources \<lparr>answer = a, sources = format_sources docs\<rparr> = format_sources docs \<and>
        length (sources \<lparr>answer = a, sources = format_sources docs\<rparr>) = length docs"
    by (simp add: format_sources_def)
  with q n(1) p l s show ?thesis by auto
qed

theorem sources_follow_context_order_witness:
  "retrieve_documents (tiny_pipeline 20 ok_gemini) (str ''q'') 4 = Inr [tiny_hit, tiny_hit] \<and>
   [tiny_hit, tiny_hit] \<noteq> [] \<and>
   (\<exists>r n. query (tiny_pipeline 20 ok_gemini) (str ''q'') 4 = Inr r \<and>
          sources r = format_sources [tiny_hit, tiny_hit] \<and>
          length (sources r) = length [tiny_hit, tiny_hit] \<and>
          n \<le> length [tiny_hit, tiny_hit] \<and>
          prepare_context (tiny_pipeline 20 ok_gemini) [tiny_hit, tiny_hit] =
            join (str ''\<newline>'') (map (\<lambda>i. doc_text i ([tiny_hit, tiny_hit] ! i)) [0..<n]))"
proof -
  have ne: "[tiny_hit, tiny_hit] \<noteq> []" by simp
  from sources_follow_context_order[OF retrieve_tiny ne, of 20 ok_gemini "str ''q''" 4]
  obtain r n where "query (tiny_pipeline 20 ok_gemini) (str ''q'') 4 = Inr r"
    "sources r = format_sources [tiny_hit, tiny_hit]"
    "length (sources r) = length [tiny_hit, tiny_hit]"
    "n \<le> length [tiny_hit, tiny_hit]"
    "prepare_context (tiny_pipeline 20 ok_gemini) [tiny_hit, tiny_hit] =
       join (str ''\<newline>'') (map (\<lambda>i. doc_text i ([tiny_hit, tiny_hit] ! i)) [0..<n])"
    by blast
  with retrieve_tiny[of 20 ok_gemini "str ''q''" 4] ne show ?thesis by blast
qed


lemma retrieve_failing_store:
  "retrieve_documents failing_store_pipeline q k = Inr []"
  by (rule retrieve_documents_failure) (simp add: failing_store_pipeline_def)

text \<open>
  Claim C6. For every question and \<open>num_sources\<close>, whatever the vector store and the
  generator do (return or raise), \<^verbatim>\<open>query\<close> returns a response and raises nothing, and
  the answer of the response is a non-empty string: the fixed "no relevant information"
  answer with no sources when retrieval raises, and the error text of the generator when
  generation raises.
\<close>

theorem query_never_raises:
  "(\<exists>r. query self q k = Inr r \<and> answer r \<noteq> []) \<and>
   (\<forall>e. vector_store self q k = Inl e \<longrightarrow>
      query self q k =
        Inr \<lparr>answer = str ''I couldn't find any relevant information in the uploaded documents to answer your question.'',
             sources = []\<rparr>) \<and>
   (\<forall>e docs. retrieve_documents self q k = Inr docs \<longrightarrow> docs \<noteq> [] \<longrightarrow>
      gemini_client self (prompt q (prepare_context self docs)) = Inl e \<longrightarrow>
      (\<exists>r. query self q k = Inr r \<and>
           answer r = str ''I encountered an error while generating an answer: '' @ str_of_error e))"
proof (intro conjI allI impI)
  obtain docs where d: "retrieve_documents self q k = Inr docs"
    using retrieve_documents_total by blast
  show "\<exists>r. query self q k = Inr r \<and> answer r \<noteq> []"
  proof (cases "docs = []")
    case True
    have "str ''I couldn't find any relevant information in the uploaded documents to answer your question.'' \<noteq> []"
      by (rule str_nonempty) simp
    with True d query_no_documents[of self q k] show ?thesis by simp
  next
    case False
    obtain a where a: "generate_answer self q (prepare_context self docs) = Inr a" "a \<noteq> []"
      using generate_answer_total by blast
    from query_with_documents[OF d False a(1)] a(2) show ?thesis by simp
  qed
next
  fix e assume "vector_store self q k = Inl e"
  then have "retrieve_documents self q k = Inr []" by (rule retrieve_documents_failure)
  then show "query self q k =
      Inr \<lparr>answer = str ''I couldn't find any relevant information in the uploaded documents to answer your question.'',
           sources = []\<rparr>"
    by (rule query_no_documents)
next
  fix e docs
  assume d: "retrieve_documents self q k = Inr docs" and ne: "docs \<noteq> []"
    and g: "gemini_client self (prompt q (prepare_context self docs)) = Inl e"
  from query_with_documents[OF d ne generate_answer_failure[OF g]]
  show "\<exists>r. query self q k = Inr r \<and>
      answer r = str ''I encountered an error while generating an answer: '' @ str_of_error e"
    by simp
qed

theorem query_never_raises_witness:
  "vector_store failing_store_pipeline (str ''q'') 4 = Inl (PyException (str ''index unavailable'')) \<and>
   query failing_store_pipeline (str ''q'') 4 =
     Inr \<lparr>answer = str ''I couldn't find any relevant information in the uploaded documents to answer your question.'',
          sources = []\<rparr> \<and>
   retrieve_documents (tiny_pipeline 34 failing_gemini) (str ''q'') 4 = Inr [tiny_hit, tiny_hit] \<and>
   [tiny_hit, tiny_hit] \<noteq> [] \<and>
   gemini_client (tiny_pipeline 34 failing_gemini)
     (prompt (str ''q'') (prepare_context (tiny_pipeline 34 failing_gemini) [tiny_hit, tiny_hit])) =
     Inl (PyException (str ''quota exceeded'')) \<and>
   (\<exists>r. query (tiny_pipeline 34 failing_gemini) (str ''q'') 4 = Inr r \<and>
        answer r = str ''I encountered an error while generating an answer: '' @ str ''quota exceeded'')"
proof -
  have v: "vector_store failing_store_pipeline (str ''q'') 4 = Inl (PyException (str ''index unavailable''))"
    by (simp add: failing_store_pipeline_def)
  have g: "gemini_client (tiny_pipeline 34 failing_gemini)
     (prompt (str ''q'') (prepare_context (tiny_pipeline 34 failing_gemini) [tiny_hit, tiny_hit])) =
     Inl (PyException (str ''quota exceeded''))"
    by (simp add: tiny_pipeline_def failing_gemini_def)
  have ne: "[tiny_hit, tiny_hit] \<noteq> []" by simp
  note a = query_never_raises[of failing_store_pipeline "str ''q''" 4, THEN conjunct2, THEN conjunct1,
      rule_format, OF v]
  note b = query_never_raises[of "tiny_pipeline 34 failing_gemini" "str ''q''" 4, THEN conjunct2,
      THEN conjunct2, rule_format, OF retrieve_tiny ne g]
  from b have "\<exists>r. query (tiny_pipeline 34 failing_gemini) (str ''q'') 4 = Inr r \<and>
        answer r = str ''I encountered an error while generating an answer: '' @ str ''quota exceeded''"
    by simp
  with v a retrieve_tiny[of 34 failing_gemini "str ''q''" 4] ne g show ?thesis by blast
qed

text \<open>
  Claim C7. When retrieval returns at least one hit and the generator raises, \<^verbatim>\<open>query\<close>
  still returns a response: its answer is non-empty and ends with the error's text, and
  its sources are all the retrieved hits, each with its content cut by the 500-character
  rule (at most 500 characters of the hit plus \<^verbatim>\<open>...\<close>), not an empty list.
\<close>

theorem generation_failure_keeps_sources:
  assumes "retrieve_documents self q k = Inr docs" and "docs \<noteq> []"
    and "gemini_client self (prompt q (prepare_context self docs)) = Inl e"
  shows "query self q k =
           Inr \<lparr>answer = str ''I encountered an error while generating an answer: '' @ str_of_error e,
                sources = format_sources docs\<rparr> \<and>
         str ''I encountered an error while generating an answer: '' @ str_of_error e \<noteq> [] \<and>
         format_sources docs \<noteq> [] \<and>
         length (format_sources docs) = length docs \<and>
         (\<forall>i<length docs.
            content (format_sources docs ! i) =
              (if length (content (docs ! i)) > 500 then take 500 (content (docs ! i)) @ str ''...''
               else content (docs ! i)) \<and>
            take 500 (content (format_sources docs ! i)) = take 500 (content (docs ! i)) \<and>
            length (content (format_sources docs ! i)) \<le> 503)"
proof -
  have 1: "query self q k =
      Inr \<lparr>answer = str ''I encountered an error while generating an answer: '' @ str_of_error e,
           sources = format_sources docs\<rparr>"
    by (rule query_with_documents[OF assms(1,2) generate_answer_failure[OF assms(3)]])
  have "str ''I encountered an error while generating an answer: '' \<noteq> []"
    by (rule str_nonempty) simp
  then have 2: "str ''I encountered an error while generating an answer: '' @ str_of_error e \<noteq> []"
    by simp
  have 3: "format_sources docs \<noteq> []" "length (format_sources docs) = length docs"
    using assms(2) by (simp_all add: format_sources_def)
  have 4: "content (format_sources docs ! i) =
        (if length (content (docs ! i)) > 500 then take 500 (content (docs ! i)) @ str ''...''
         else content (docs ! i)) \<and>
      take 500 (content (format_sources docs ! i)) = take 500 (content (docs ! i)) \<and>
      length (content (format_sources docs ! i)) \<le> 503" if "i < length docs" for i
    using that by (simp add: format_sources_def source_info_def str_def)
  from 1 2 3 4 show ?thesis by blast
qed

theorem generation_failure_keeps_sources_witness:
  "retrieve_documents (tiny_pipeline 34 failing_gemini) (str ''q'') 4 = Inr [tiny_hit, tiny_hit] \<and>
   [tiny_hit, tiny_hit] \<noteq> [] \<and>
   gemini_client (tiny_pipeline 34 failing_gemini)
     (prompt (str ''q'') (prepare_context (tiny_pipeline 34 failing_gemini) [tiny_hit, tiny_hit])) =
     Inl (PyException (str ''quota exceeded'')) \<and>
   query (tiny_pipeline 34 failing_gemini) (str ''q'') 4 =
     Inr \<lparr>answer = str ''I encountered an error while generating an answer: quota exceeded'',
          sources = [tiny_hit, tiny_hit]\<rparr>"
proof -
  have g: "gemini_client (tiny_pipeline 34 failing_gemini)
     (prompt (str ''q'') (prepare_context (tiny_pipeline 34 failing_gemini) [tiny_hit, tiny_hit])) =
     Inl (PyException (str ''quota exceeded''))"
    by (simp add: tiny_pipeline_def failing_gemini_def)
  have ne: "[tiny_hit, tiny_hit] \<noteq> []" by simp
  from generation_failure_keeps_sources[OF retrieve_tiny ne g, THEN conjunct1]
  have "query (tiny_pipeline 34 failing_gemini) (str ''q'') 4 =
     Inr \<lparr>answer = str ''I encountered an error while generating an answer: quota exceeded'',
          sources = [tiny_hit, tiny_hit]\<rparr>"
    by (simp add: format_sources_def source_info_tiny str_def)
  with retrieve_tiny[of 34 failing_gemini "str ''q''" 4] ne g show ?thesis by blast
qed

text \<open>
  Claim C8. Every formatted source keeps the score and the metadata of its hit; its
  content is the hit's content when that has at most 500 characters, and otherwise the
  first 500 characters followed by \<^verbatim>\<open>...\<close>, so a content of 600 characters gives a source
  content of 503 characters.
\<close>

theorem format_sources_entry:
  assumes "i < length docs"
  shows "length (format_sources docs) = length docs \<and>
         score (format_sources docs ! i) = score (docs ! i) \<and>
         metadata (format_sources docs ! i) = metadata (docs ! i) \<and>
         (length (content (docs ! i)) \<le> 500 \<longrightarrow>
            content (format_sources docs ! i) = content (docs ! i)) \<and>
         (length (content (docs ! i)) > 500 \<longrightarrow>
            content (format_sources docs ! i) = take 500 (content (docs ! i)) @ str ''...'') \<and>
         (length (content (docs ! i)) = 600 \<longrightarrow>
            length (content (format_sources docs ! i)) = 503)"
  using assms by (simp add: format_sources_def source_info_def str_def)

theorem format_sources_entry_witness:
  "(0::nat) < length [tiny_hit, long_hit] \<and> (1::nat) < length [tiny_hit, long_hit] \<and>
   length (content ([tiny_hit, long_hit] ! 0)) \<le> 500 \<and>
   content (format_sources [tiny_hit, long_hit] ! 0) = content tiny_hit \<and>
   score (format_sources [tiny_hit, long_hit] ! 1) = score long_hit \<and>
   metadata (format_sources [tiny_hit, long_hit] ! 1) = metadata long_hit \<and>
   length (content ([tiny_hit, long_hit] ! 1)) = 600 \<and>
   content (format_sources [tiny_hit, long_hit] ! 1) = replicate 500 97 @ str ''...'' \<and>
   length (content (format_sources [tiny_hit, long_hit] ! 1)) = 503"
proof -
  have i0: "(0::nat) < length [tiny_hit, long_hit]" and i1: "(1::nat) < length [tiny_hit, long_hit]"
    by simp_all
  have l0: "length (content ([tiny_hit, long_hit] ! 0)) \<le> 500"
    by (simp add: tiny_hit_def str_def)
  have l1: "length (content ([tiny_hit, long_hit] ! 1)) = 600"
    by (simp add: long_hit_def)
  have t: "take 500 (content long_hit) = replicate 500 97"
    by (simp add: long_hit_def)
  note a = format_sources_entry[OF i0]
  note b = format_sources_entry[OF i1]
  from a l0 have "content (format_sources [tiny_hit, long_hit] ! 0) = content tiny_hit"
    by simp
  moreover from b l1 t have "score (format_sources [tiny_hit, long_hit] ! 1) = score long_hit"
    "metadata (format_sources [tiny_hit, long_hit] ! 1) = metadata long_hit"
    "content (format_sources [tiny_hit, long_hit] ! 1) = replicate 500 97 @ str ''...''"
    "length (content (format_sources [tiny_hit, long_hit] ! 1)) = 503"
    by (simp_all add: str_def)
  ultimately show ?thesis using i0 i1 l0 l1 by blast
qed

text \<open>
  Claim C10. \<^verbatim>\<open>update_vector_store\<close> replaces the pipeline's vector store and nothing
  else: the generator client and \<open>max_context_length\<close> are as they were before the call.
\<close>

theorem update_vector_store_frame:
  "vector_store (update_vector_store self new_vector_store) = new_vector_store \<and>
   gemini_client (update_vector_store self new_vector_store) = gemini_client self \<and>
   max_context_length (update_vector_store self new_vector_store) = max_context_length self"
  by (simp add: update_vector_store_def)

end
